theory Spec2Isabelle
  imports Main "HOL-Library.Word"
begin

unbundle bit_operations_syntax

section \<open>Machine integers and failures\<close>

text \<open>
  The fixed-width aliases of \<^verbatim>\<open>cobalt/support/types.h\<close>. A signed 64-bit value is kept
  as its bit pattern and read through \<open>sint\<close>, which is what \<^verbatim>\<open>std::bit_cast<i64>\<close> does.
\<close>

type_synonym u8 = "8 word"
type_synonym u32 = "32 word"
type_synonym u64 = "64 word"
type_synonym i64 = "64 word"

text \<open>
  Every way a call of the reader can end without a value. The first four are the
  \<^verbatim>\<open>WasmBytecodeReadException\<close>s the source throws, told apart by their message:
  "unexpected end of module", "got unexpected byte, expected .. but got ..",
  "invalid LEB128 integer, expected end of integer but did not get one" and
  "unknown type identifier ..". The remaining ones are not exceptions of the source but
  the places where the C++ has no defined result: an access outside a span, a shift by
  64 or more, control reaching the end of a value-returning function, and a failed
  \<^verbatim>\<open>assert\<close>. The last one stands for a member function that cannot be compiled at
  all because it names an entity that is declared nowhere: a call of it has no result.
\<close>

datatype error =
    UnexpectedEndOfModule
  | UnexpectedByte u8 u8
  | InvalidLEB128
  | UnknownTypeIdentifier u8
  | OutOfBoundsAccess
  | ShiftOutOfRange
  | MissingReturn
  | AssertionFailure
  | UndeclaredName

section \<open>The byte cursor\<close>

text \<open>
  \<^verbatim>\<open>WasmBytecodeReaderBase\<close> holds one field, the span \<^verbatim>\<open>remaining_\<close> of bytes not yet
  read (a name cannot end in an underscore here, so the field is \<open>remaining\<close>). A method of
  the reader becomes a function from the reader to the outcome and the
  reader after the call; the reader is returned on failure too, because a thrown
  exception does not undo the advances made before it.
\<close>

record WasmBytecodeReaderBase =
  remaining :: "u8 list"

type_synonym 'a reading = "(error + 'a) \<times> WasmBytecodeReaderBase"

text \<open>\<^verbatim>\<open>span[i]\<close> and \<^verbatim>\<open>span.subspan(off)\<close>, defined only inside the span.\<close>

definition span_index :: "'a list \<Rightarrow> nat \<Rightarrow> 'a option" where
  "span_index s i = (if i < length s then Some (s ! i) else None)"

definition subspan :: "'a list \<Rightarrow> nat \<Rightarrow> 'a list option" where
  "subspan s off = (if off \<le> length s then Some (drop off s) else None)"

definition consume :: "WasmBytecodeReaderBase \<Rightarrow> u8 reading" where
  "consume r =
     (if remaining r = [] then (Inl UnexpectedEndOfModule, r)
      else (case span_index (remaining r) 0 of
              None \<Rightarrow> (Inl OutOfBoundsAccess, r)
            | Some c0 \<Rightarrow>
                (case subspan (remaining r) 1 of
                   None \<Rightarrow> (Inl OutOfBoundsAccess, r)
                 | Some rest \<Rightarrow> (Inr c0, r\<lparr>remaining := rest\<rparr>))))"

definition expect :: "u8 \<Rightarrow> WasmBytecodeReaderBase \<Rightarrow> unit reading" where
  "expect val r =
     (case consume r of
        (Inl e, r') \<Rightarrow> (Inl e, r')
      | (Inr got, r') \<Rightarrow>
          (if got \<noteq> val then (Inl (UnexpectedByte val got), r') else (Inr (), r')))"

text \<open>
  \<^verbatim>\<open>consume_n<N>\<close>: the buffer starts as \<open>N\<close> zero bytes and the loop
  \<^verbatim>\<open>for (i = 0; i < N; ++i) buf[i] = consume();\<close> fills it.
\<close>

function consume_n_loop ::
  "nat \<Rightarrow> nat \<Rightarrow> u8 list \<Rightarrow> WasmBytecodeReaderBase \<Rightarrow> (u8 list) reading" where
  "consume_n_loop N i buf r =
     (if i < N then
        (case consume r of
           (Inl e, r') \<Rightarrow> (Inl e, r')
         | (Inr b, r') \<Rightarrow> consume_n_loop N (i + 1) (buf[i := b]) r')
      else (Inr buf, r))"
  by pat_completeness auto
termination
  by (relation "measure (\<lambda>(N, i, buf, r). N - i)") auto

definition consume_n :: "nat \<Rightarrow> WasmBytecodeReaderBase \<Rightarrow> (u8 list) reading" where
  "consume_n N r = consume_n_loop N 0 (replicate N 0) r"

definition read_byte :: "WasmBytecodeReaderBase \<Rightarrow> u8 reading" where
  "read_byte r = consume r"

section \<open>The variable-length integer codec\<close>

text \<open>The constants of \<^verbatim>\<open>cobalt::internal\<close> in the values file.\<close>

definition bits_per_iteration :: u64 where
  "bits_per_iteration = 7"

definition leb128_value :: u64 where
  "leb128_value = 0x7F"

definition leb128_continue :: u64 where
  "leb128_continue = 0x80"

definition leb128_sign :: u64 where
  "leb128_sign = 0x40"

record LEB128ReaderResult =
  result :: u64
  shift :: u64
  last_byte :: u64

text \<open>
  The \<^verbatim>\<open>do { .. } while (..)\<close> loop of \<^verbatim>\<open>read_leb128_internal<N>\<close> together with the
  check that follows it; one call is one iteration. The template argument is an
  \<^verbatim>\<open>int\<close>, and the comparisons \<^verbatim>\<open>shift < N\<close> and \<^verbatim>\<open>shift >= N\<close> convert it to
  \<^verbatim>\<open>u64\<close>, which is \<open>word_of_int N\<close>. A left shift of a \<^verbatim>\<open>u64\<close> by 64 or more has no
  defined result in C++, so the model stops there with \<open>ShiftOutOfRange\<close>.
\<close>

function read_leb128_loop ::
  "int \<Rightarrow> u64 \<Rightarrow> u64 \<Rightarrow> WasmBytecodeReaderBase \<Rightarrow> LEB128ReaderResult reading" where
  "read_leb128_loop N res sh r =
     (case consume r of
        (Inl e, r') \<Rightarrow> (Inl e, r')
      | (Inr b, r') \<Rightarrow>
          (if 64 \<le> unat sh then (Inl ShiftOutOfRange, r')
           else
             (let last = (ucast b :: u64);
                  res' = res OR push_bit (unat sh) (last AND leb128_value);
                  sh' = sh + bits_per_iteration
              in if last AND leb128_continue \<noteq> 0 \<and> sh' < word_of_int N
                 then read_leb128_loop N res' sh' r'
                 else if last AND leb128_continue \<noteq> 0 \<and> sh' \<ge> word_of_int N
                 then (Inl InvalidLEB128, r')
                 else (Inr \<lparr>result = res', shift = sh', last_byte = last\<rparr>, r'))))"
  by pat_completeness auto
termination
  by (relation "measure (\<lambda>(N, res, sh, r). length (remaining r))")
     (auto simp: consume_def span_index_def subspan_def split: if_splits)

definition read_leb128_internal ::
  "int \<Rightarrow> WasmBytecodeReaderBase \<Rightarrow> LEB128ReaderResult reading" where
  "read_leb128_internal N r = read_leb128_loop N 0 0 r"

definition read_leb128_unsigned :: "int \<Rightarrow> WasmBytecodeReaderBase \<Rightarrow> u64 reading" where
  "read_leb128_unsigned N r =
     (case read_leb128_internal N r of
        (Inl e, r') \<Rightarrow> (Inl e, r')
      | (Inr parsed, r') \<Rightarrow> (Inr (result parsed), r'))"

definition read_leb128_signed :: "int \<Rightarrow> WasmBytecodeReaderBase \<Rightarrow> i64 reading" where
  "read_leb128_signed N r =
     (case read_leb128_internal N r of
        (Inl e, r') \<Rightarrow> (Inl e, r')
      | (Inr parsed, r') \<Rightarrow>
          (if shift parsed < 64 \<and> last_byte parsed AND leb128_sign \<noteq> 0
           then (Inr (result parsed OR push_bit (unat (shift parsed)) (NOT 0)), r')
           else (Inr (result parsed), r')))"

text \<open>
  The test \<^verbatim>\<open>(last_byte & internal::leb128_continue) != 0\<close> that both the loop condition
  and the check after the loop apply to the byte just read.
\<close>

definition continues :: "u8 \<Rightarrow> bool" where
  "continues b \<longleftrightarrow> (ucast b :: u64) AND leb128_continue \<noteq> 0"

text \<open>
  Modelled from the spec: the unsigned LEB128 encoder. The repository has no encoder (its
  decoder is tested against byte strings kept in fixture files), so the encoding that
  the round-trip property speaks of is written from the format description: groups of 7
  value bits, least significant group first, the high bit of a byte set exactly when
  another byte follows, and no more bytes than the value needs.
\<close>

fun encode_unsigned :: "nat \<Rightarrow> u8 list" where
  "encode_unsigned v =
     (if v < 128 then [word_of_nat v]
      else word_of_nat (v mod 128 + 128) # encode_unsigned (v div 128))"

text \<open>
  Modelled from the spec: the signed LEB128 encoder, absent from the repository like the
  unsigned one. The groups are those of the two's-complement representation; the last
  byte is the first one after which only copies of the sign bit remain, with bit 6 of
  that byte equal to the sign.
\<close>

function encode_signed :: "int \<Rightarrow> u8 list" where
  "encode_signed v =
     (let byte = v mod 128; rest = v div 128
      in if (rest = 0 \<and> byte < 64) \<or> (rest = - 1 \<and> 64 \<le> byte) then [word_of_int byte]
         else word_of_int (byte + 128) # encode_signed rest)"
  by pat_completeness auto
termination
proof (relation "measure (\<lambda>v. nat \<bar>v\<bar>)", goal_cases)
  case 1
  show ?case by simp
next
  case (2 v byte rest)
  define q m where "q = v div 128" and "m = v mod 128"
  have v: "v = 128 * q + m" and m: "0 \<le> m" "m < 128"
    by (simp_all add: q_def m_def)
  from 2 have "\<not> ((q = 0 \<and> m < 64) \<or> (q = - 1 \<and> 64 \<le> m))"
    by (simp add: q_def m_def)
  with v m have "\<bar>q\<bar> < \<bar>v\<bar>"
    by linarith
  with 2 show ?case
    by (simp add: q_def)
qed

section \<open>The type grammar\<close>

datatype ValueType = i32 | i64 | f32 | f64 | v128 | func_ref | extern_ref

definition read_val_ty :: "WasmBytecodeReaderBase \<Rightarrow> ValueType reading" where
  "read_val_ty r =
     (case read_byte r of
        (Inl e, r') \<Rightarrow> (Inl e, r')
      | (Inr byte, r') \<Rightarrow>
          (if byte = 0x6F then (Inr extern_ref, r')
           else if byte = 0x70 then (Inr func_ref, r')
           else if byte = 0x7B then (Inr v128, r')
           else if byte = 0x7C then (Inr f64, r')
           else if byte = 0x7D then (Inr f32, r')
           else if byte = 0x7E then (Inr i64, r')
           else if byte = 0x7F then (Inr i32, r')
           else (Inl (UnknownTypeIdentifier byte), r')))"

section \<open>The compact multi-sequence store\<close>

text \<open>
  \<^verbatim>\<open>SmallMultiArray<T, N, SmallSize>\<close> keeps the backing vector \<^verbatim>\<open>array_\<close> and the
  \<^verbatim>\<open>std::array<u32, N>\<close> of end offsets \<^verbatim>\<open>indices_\<close>. The arity \<open>N\<close> is the length
  of the offset array, so it is read off the data instead of being passed around. As
  for the reader, the fields lose the trailing underscore of their C++ names.
\<close>

record 'a SmallMultiArray =
  array :: "'a list"
  indices :: "u32 list"

text \<open>
  \<^verbatim>\<open>sub_vec(i)\<close>: \<^verbatim>\<open>begin\<close> and \<^verbatim>\<open>length\<close> are \<^verbatim>\<open>u32\<close> (the conditional
  \<^verbatim>\<open>(i == 0) ? 0 : indices_[i - 1]\<close> has the type of its second branch), so the
  subtraction wraps. The span \<^verbatim>\<open>{array_.data() + begin, length}\<close> is a view of the
  backing vector only while it lies inside it.
\<close>

definition sub_vec :: "'a SmallMultiArray \<Rightarrow> nat \<Rightarrow> error + 'a list" where
  "sub_vec a i =
     (if \<not> i < length (indices a) then Inl AssertionFailure
      else
        (let begin = (if i = 0 then 0 else indices a ! (i - 1));
             len = indices a ! i - begin
         in if unat begin + unat len \<le> length (array a)
            then Inr (take (unat len) (drop (unat begin) (array a)))
            else Inl OutOfBoundsAccess))"

text \<open>
  \<^verbatim>\<open>MultiArrayBuilder<T, N, SmallSize>\<close>. A fresh builder has an empty vector, \<open>N\<close> zero
  offsets (\<^verbatim>\<open>indices_ = {0}\<close>) and \<^verbatim>\<open>current_index_ = 0\<close>. Storing
  \<^verbatim>\<open>underlying_.size()\<close>, a \<^verbatim>\<open>size_t\<close>, into a \<^verbatim>\<open>u32\<close> slot keeps its low 32 bits.
\<close>

record 'a MultiArrayBuilder =
  underlying :: "'a list"
  indices :: "u32 list"
  current_index :: nat

definition new_builder :: "nat \<Rightarrow> 'a MultiArrayBuilder" where
  "new_builder N = \<lparr>underlying = [], indices = replicate N 0, current_index = 0\<rparr>"

definition push :: "'a \<Rightarrow> 'a MultiArrayBuilder \<Rightarrow> 'a MultiArrayBuilder" where
  "push v b = b\<lparr>underlying := underlying b @ [v]\<rparr>"

definition end_sub_vec :: "'a MultiArrayBuilder \<Rightarrow> error + 'a MultiArrayBuilder" where
  "end_sub_vec b =
     (if \<not> current_index b < length (MultiArrayBuilder.indices b) then Inl AssertionFailure
      else Inr (b\<lparr>indices :=
                    (MultiArrayBuilder.indices b)
                      [current_index b := word_of_nat (length (underlying b))],
                  current_index := current_index b + 1\<rparr>))"

text \<open>
  \<^verbatim>\<open>build()\<close> as the source has it: its body is
  \<^verbatim>\<open>return MultiArray(std::move(underlying_), indices_);\<close>, and no \<^verbatim>\<open>MultiArray\<close> is
  declared anywhere in the repository (the class is \<^verbatim>\<open>SmallMultiArray\<close>). The member
  cannot be instantiated, so a caller of \<^verbatim>\<open>build\<close> gets no store.
\<close>

definition build :: "'a MultiArrayBuilder \<Rightarrow> error + 'a SmallMultiArray" where
  "build b = Inl UndeclaredName"

text \<open>
  Not the source: \<^verbatim>\<open>build()\<close> with the undeclared name read as \<^verbatim>\<open>SmallMultiArray\<close>, the
  class whose protected constructor \<^verbatim>\<open>SmallMultiArray(data, indices)\<close> names the builder
  as a friend. It serves only to say what the offsets recorded by the builder would give
  once the name is repaired.
\<close>

definition build_repaired :: "'a MultiArrayBuilder \<Rightarrow> 'a SmallMultiArray" where
  "build_repaired b = \<lparr>array = underlying b, indices = MultiArrayBuilder.indices b\<rparr>"

text \<open>A caller of the builder is a sequence of its two mutating calls, run in order.\<close>

datatype 'a builder_call = Push 'a | EndSubVec

fun run_calls :: "'a builder_call list \<Rightarrow> 'a MultiArrayBuilder \<Rightarrow> error + 'a MultiArrayBuilder" where
  "run_calls [] b = Inr b"
| "run_calls (Push v # cs) b = run_calls cs (push v b)"
| "run_calls (EndSubVec # cs) b =
     (case end_sub_vec b of Inl e \<Rightarrow> Inl e | Inr b' \<Rightarrow> run_calls cs b')"

text \<open>The whole life of a builder: created for arity \<open>N\<close>, driven by the calls, then built.\<close>

definition build_after :: "nat \<Rightarrow> 'a builder_call list \<Rightarrow> error + 'a SmallMultiArray" where
  "build_after N cs =
     (case run_calls cs (new_builder N) of Inl e \<Rightarrow> Inl e | Inr b \<Rightarrow> build b)"

text \<open>Building and then asking for sub-array \<open>i\<close>, with the failures of either step.\<close>

definition sub_vec_after :: "nat \<Rightarrow> 'a builder_call list \<Rightarrow> nat \<Rightarrow> error + 'a list" where
  "sub_vec_after N cs i =
     (case build_after N cs of Inl e \<Rightarrow> Inl e | Inr a \<Rightarrow> sub_vec a i)"

section \<open>The types of the type section\<close>

record FunctionType =
  vec :: "ValueType SmallMultiArray"

definition param_tys :: "FunctionType \<Rightarrow> error + ValueType list" where
  "param_tys ft = sub_vec (vec ft) 0"

definition result_tys :: "FunctionType \<Rightarrow> error + ValueType list" where
  "result_tys ft = sub_vec (vec ft) 1"

text \<open>
  \<^verbatim>\<open>Limit\<close> has the fields \<^verbatim>\<open>min_\<close> and \<^verbatim>\<open>max_\<close>; \<^verbatim>\<open>numeric_limits<uint32_t>::max()\<close>
  is the word with all 32 bits set.
\<close>

record Limit =
  min_field :: u32
  max_field :: u32

definition unbounded :: "u32 \<Rightarrow> Limit" where
  "unbounded mn = \<lparr>min_field = mn, max_field = 0xFFFFFFFF\<rparr>"

definition bounded :: "u32 \<Rightarrow> u32 \<Rightarrow> Limit" where
  "bounded mn mx = \<lparr>min_field = mn, max_field = mx\<rparr>"

definition min_of :: "Limit \<Rightarrow> u32" where
  "min_of l = min_field l"

definition max_of :: "Limit \<Rightarrow> u32 option" where
  "max_of l = (if max_field l = 0xFFFFFFFF then None else Some (max_field l))"

text \<open>
  \<^verbatim>\<open>read_function_ty\<close> as the source has it: the body is the single statement
  \<^verbatim>\<open>expect(0x60);\<close>, after which control reaches the end of a function that must return
  a \<^verbatim>\<open>FunctionType\<close>.
\<close>

definition read_function_ty :: "WasmBytecodeReaderBase \<Rightarrow> FunctionType reading" where
  "read_function_ty r =
     (case expect 0x60 r of
        (Inl e, r') \<Rightarrow> (Inl e, r')
      | (Inr u, r') \<Rightarrow> (Inl MissingReturn, r'))"

section \<open>Theorems\<close>

subsection \<open>Single-byte reads\<close>

lemma consume_Nil: "remaining r = [] \<Longrightarrow> consume r = (Inl UnexpectedEndOfModule, r)"
  by (simp add: consume_def)

lemma consume_Cons:
  "remaining r = b # bs \<Longrightarrow> consume r = (Inr b, r\<lparr>remaining := bs\<rparr>)"
  by (simp add: consume_def span_index_def subspan_def)

text \<open>
  C4. \<open>consume\<close> fails with the unexpected-end error exactly when no byte remains, and
  then leaves the cursor where it was; otherwise it returns the first remaining byte and
  the cursor advances by exactly one byte. It never reaches the out-of-bounds branches of
  the span accesses.
\<close>

theorem consume_safe:
  "(fst (consume r) = Inl UnexpectedEndOfModule \<longleftrightarrow> remaining r = []) \<and>
   (remaining r = [] \<longrightarrow> snd (consume r) = r) \<and>
   (remaining r \<noteq> [] \<longrightarrow>
      consume r = (Inr (hd (remaining r)), r\<lparr>remaining := tl (remaining r)\<rparr>) \<and>
      length (remaining (snd (consume r))) + 1 = length (remaining r)) \<and>
   fst (consume r) \<noteq> Inl OutOfBoundsAccess"
  by (cases "remaining r") (simp_all add: consume_Nil consume_Cons)

theorem consume_safe_witness:
  "fst (consume \<lparr>remaining = []\<rparr>) = Inl UnexpectedEndOfModule \<and>
   snd (consume \<lparr>remaining = []\<rparr>) = \<lparr>remaining = []\<rparr> \<and>
   consume \<lparr>remaining = [0x60, 0x7F]\<rparr> = (Inr 0x60, \<lparr>remaining = [0x7F]\<rparr>) \<and>
   fst (consume \<lparr>remaining = [0x60, 0x7F]\<rparr>) \<noteq> Inl OutOfBoundsAccess"
  using consume_safe [of "\<lparr>remaining = []\<rparr>"] consume_safe [of "\<lparr>remaining = [0x60, 0x7F]\<rparr>"]
  by simp

subsection \<open>Where the decode loop stops\<close>

declare read_leb128_loop.simps [simp del]

lemma shift_step:
  "unat sh = s \<Longrightarrow> s < 64 \<Longrightarrow> unat (sh + bits_per_iteration) = s + 7"
  by (auto simp add: bits_per_iteration_def unat_word_ariths)

lemma unat_width:
  assumes "1 \<le> N" "N \<le> 64"
  shows "unat (word_of_int N :: u64) = nat N"
  using assms by (simp add: unat_eq_nat_uint take_bit_int_eq_self unsigned_of_int)

lemma shift_lt_width:
  assumes "1 \<le> N" "N \<le> 64" "unat sh = s" "s < 64"
  shows "sh + bits_per_iteration < word_of_int N \<longleftrightarrow> s + 7 < nat N"
  unfolding word_less_nat_alt shift_step [OF assms(3,4)] unat_width [OF assms(1,2)] ..

lemma loop_end:
  "remaining r = [] \<Longrightarrow> read_leb128_loop N res sh r = (Inl UnexpectedEndOfModule, r)"
  by (simp add: read_leb128_loop.simps [of N res sh r] consume_Nil)

lemma loop_done:
  assumes "remaining r = b # bs" "unat sh = s" "s < 64" "\<not> continues b"
  shows "read_leb128_loop N res sh r =
     (Inr \<lparr>result = res OR push_bit s (ucast b AND leb128_value),
           shift = sh + bits_per_iteration, last_byte = ucast b\<rparr>, r\<lparr>remaining := bs\<rparr>)"
proof -
  have c: "consume r = (Inr b, r\<lparr>remaining := bs\<rparr>)"
    using assms(1) by (rule consume_Cons)
  have s: "\<not> 64 \<le> s"
    using assms(3) by simp
  have k: "(ucast b :: u64) AND leb128_continue = 0"
    using assms(4) by (simp add: continues_def)
  show ?thesis
    by (subst read_leb128_loop.simps) (simp add: c assms(2) s k Let_def)
qed

lemma loop_continue:
  assumes "remaining r = b # bs" "unat sh = s" "s < 64" "continues b" "1 \<le> N" "N \<le> 64"
    "s + 7 < nat N"
  shows "read_leb128_loop N res sh r =
     read_leb128_loop N (res OR push_bit s (ucast b AND leb128_value))
       (sh + bits_per_iteration) (r\<lparr>remaining := bs\<rparr>)"
proof -
  have c: "consume r = (Inr b, r\<lparr>remaining := bs\<rparr>)"
    using assms(1) by (rule consume_Cons)
  have s: "\<not> 64 \<le> s"
    using assms(3) by simp
  have k: "(ucast b :: u64) AND leb128_continue \<noteq> 0"
    using assms(4) by (simp add: continues_def)
  have w: "sh + bits_per_iteration < word_of_int N"
    unfolding shift_lt_width [OF assms(5,6,2,3)] using assms(7) .
  show ?thesis
    by (subst read_leb128_loop.simps) (simp add: c assms(2) s k w Let_def)
qed

lemma loop_invalid:
  assumes "remaining r = b # bs" "unat sh = s" "s < 64" "continues b" "1 \<le> N" "N \<le> 64"
    "nat N \<le> s + 7"
  shows "read_leb128_loop N res sh r = (Inl InvalidLEB128, r\<lparr>remaining := bs\<rparr>)"
proof -
  have c: "consume r = (Inr b, r\<lparr>remaining := bs\<rparr>)"
    using assms(1) by (rule consume_Cons)
  have s: "\<not> 64 \<le> s"
    using assms(3) by simp
  have k: "(ucast b :: u64) AND leb128_continue \<noteq> 0"
    using assms(4) by (simp add: continues_def)
  have w: "\<not> sh + bits_per_iteration < word_of_int N"
    unfolding shift_lt_width [OF assms(5,6,2,3)] using assms(7) by linarith
  have w': "sh + bits_per_iteration \<ge> word_of_int N"
    using w by (simp only: not_less)
  show ?thesis
    by (subst read_leb128_loop.simps) (simp add: c assms(2) s k w w' Let_def)
qed

lemma group_fits:
  fixes res x :: u64
  assumes "take_bit s res = res"
  shows "take_bit (s + 7) (res OR push_bit s (x AND leb128_value)) =
         res OR push_bit s (x AND leb128_value)"
proof -
  have v: "leb128_value = mask 7"
    by (simp add: leb128_value_def mask_eq_exp_minus_1)
  have r: "bit res n \<Longrightarrow> n < s" for n
    using assms by (metis bit_take_bit_iff)
  show ?thesis
    unfolding v by (rule bit_word_eqI) (auto simp: bit_simps dest: r)
qed

lemma loop_prefix:
  assumes N: "1 \<le> N" "N \<le> 64"
  shows "remaining r = pre @ rest \<Longrightarrow> \<forall>b\<in>set pre. continues b \<Longrightarrow> unat sh = s \<Longrightarrow> s < 64 \<Longrightarrow>
     s + 7 * length pre < nat N \<Longrightarrow> take_bit s res = res \<Longrightarrow>
     \<exists>res' sh'. unat sh' = s + 7 * length pre \<and> take_bit (s + 7 * length pre) res' = res' \<and>
       read_leb128_loop N res sh r = read_leb128_loop N res' sh' (r\<lparr>remaining := rest\<rparr>)"
proof (induction pre arbitrary: res sh s r)
  case Nil
  then have "r\<lparr>remaining := rest\<rparr> = r" by simp
  with Nil.prems(3,6) show ?case by auto
next
  case (Cons b pre)
  let ?res = "res OR push_bit s (ucast b AND leb128_value)"
  let ?sh = "sh + bits_per_iteration"
  let ?r = "r\<lparr>remaining := pre @ rest\<rparr>"
  have lt: "s + 7 + 7 * length pre < nat N"
    using Cons.prems(5) by simp
  have sh': "unat ?sh = s + 7"
    using Cons.prems(3,4) by (rule shift_step)
  have rem: "remaining r = b # (pre @ rest)"
    using Cons.prems(1) by simp
  have b: "continues b" and pre: "\<forall>x\<in>set pre. continues x"
    using Cons.prems(2) by simp_all
  have step: "read_leb128_loop N res sh r = read_leb128_loop N ?res ?sh ?r"
    using rem Cons.prems(3,4) b N by (rule loop_continue) (use lt in linarith)
  have fits: "take_bit (s + 7) ?res = ?res"
    using Cons.prems(6) by (rule group_fits)
  have "remaining ?r = pre @ rest"
    by simp
  moreover have "s + 7 < 64"
    using lt N by linarith
  ultimately obtain res' sh' where "unat sh' = s + 7 + 7 * length pre"
    "take_bit (s + 7 + 7 * length pre) res' = res'"
    "read_leb128_loop N ?res ?sh ?r = read_leb128_loop N res' sh' (?r\<lparr>remaining := rest\<rparr>)"
    using Cons.IH [OF _ pre sh' _ lt fits, of ?r] by blast
  then have "unat sh' = s + 7 * length (b # pre) \<and>
      take_bit (s + 7 * length (b # pre)) res' = res' \<and>
      read_leb128_loop N res sh r = read_leb128_loop N res' sh' (r\<lparr>remaining := rest\<rparr>)"
    unfolding step by (simp add: add.assoc)
  then show ?case
    by blast
qed

lemma internal_prefix:
  assumes N: "1 \<le> N" "N \<le> 64"
    and r: "remaining r = pre @ rest"
    and pre: "\<forall>x\<in>set pre. continues x"
    and len: "7 * length pre < nat N"
  obtains res' sh' where "unat sh' = 7 * length pre" "take_bit (7 * length pre) res' = res'"
    "read_leb128_internal N r = read_leb128_loop N res' sh' (r\<lparr>remaining := rest\<rparr>)"
proof -
  have "unat (0 :: u64) = 0" "(0::nat) < 64" "0 + 7 * length pre < nat N"
    "take_bit 0 (0 :: u64) = 0"
    using len by simp_all
  from loop_prefix [OF N r pre this] that show thesis
    unfolding read_leb128_internal_def by auto
qed

lemma internal_success:
  assumes N: "1 \<le> N" "N \<le> 64"
    and r: "remaining r = pre @ b # rest"
    and pre: "\<forall>x\<in>set pre. continues x" and b: "\<not> continues b"
    and len: "7 * length pre < nat N"
  shows "\<exists>res' sh'. unat sh' = 7 * (length pre + 1) \<and>
     take_bit (7 * (length pre + 1)) res' = res' \<and>
     read_leb128_internal N r =
     (Inr \<lparr>result = res', shift = sh', last_byte = ucast b\<rparr>, r\<lparr>remaining := rest\<rparr>)"
proof -
  from internal_prefix [OF N r pre len]
  obtain res' sh' where sh': "unat sh' = 7 * length pre"
    and fits: "take_bit (7 * length pre) res' = res'"
    and 1: "read_leb128_internal N r = read_leb128_loop N res' sh' (r\<lparr>remaining := b # rest\<rparr>)"
    by blast
  have lt: "7 * length pre < 64"
    using len N by linarith
  have "remaining (r\<lparr>remaining := b # rest\<rparr>) = b # rest"
    by simp
  note d = loop_done [OF this sh' lt b, of N res']
  have k: "7 * (length pre + 1) = 7 * length pre + 7"
    by simp
  have e: "unat (sh' + bits_per_iteration) = 7 * (length pre + 1)"
    unfolding k using sh' lt by (rule shift_step)
  have f: "take_bit (7 * (length pre + 1))
      (res' OR push_bit (7 * length pre) (ucast b AND leb128_value)) =
      res' OR push_bit (7 * length pre) (ucast b AND leb128_value)"
    unfolding k using fits by (rule group_fits)
  show ?thesis
    unfolding 1 d using e f by simp
qed

lemma internal_invalid:
  assumes N: "1 \<le> N" "N \<le> 64"
    and r: "remaining r = pre @ b # rest"
    and pre: "\<forall>x\<in>set pre. continues x" and b: "continues b"
    and len: "7 * length pre < nat N" "nat N \<le> 7 * length pre + 7"
  shows "read_leb128_internal N r = (Inl InvalidLEB128, r\<lparr>remaining := rest\<rparr>)"
proof -
  from internal_prefix [OF N r pre len(1)]
  obtain res' sh' where sh': "unat sh' = 7 * length pre"
    and 1: "read_leb128_internal N r = read_leb128_loop N res' sh' (r\<lparr>remaining := b # rest\<rparr>)"
    by blast
  have lt: "7 * length pre < 64"
    using len N by linarith
  have "remaining (r\<lparr>remaining := b # rest\<rparr>) = b # rest"
    by simp
  from loop_invalid [OF this sh' lt b N len(2), of res']
  show ?thesis
    unfolding 1 by simp
qed

lemma internal_end:
  assumes N: "1 \<le> N" "N \<le> 64"
    and r: "remaining r = pre"
    and pre: "\<forall>x\<in>set pre. continues x"
    and len: "7 * length pre < nat N"
  shows "read_leb128_internal N r = (Inl UnexpectedEndOfModule, r\<lparr>remaining := []\<rparr>)"
proof -
  have r': "remaining r = pre @ []"
    using r by simp
  from internal_prefix [OF N r' pre len]
  obtain res' sh' where
    1: "read_leb128_internal N r = read_leb128_loop N res' sh' (r\<lparr>remaining := []\<rparr>)"
    by blast
  show ?thesis
    unfolding 1 by (simp add: loop_end)
qed

lemma groups_bound:
  "1 \<le> N \<Longrightarrow> c < nat ((N + 6) div 7) \<longleftrightarrow> 7 * c < nat N"
  by (cases "(N + 6) div 7") (simp_all, linarith+)

lemma stops_success:
  assumes N: "1 \<le> N" "N \<le> 64"
    and c: "c = length (takeWhile continues (remaining r))"
    and lt: "c < nat ((N + 6) div 7)" "c < length (remaining r)"
  shows "\<exists>res sh. unat sh = 7 * (c + 1) \<and> take_bit (7 * (c + 1)) res = res \<and>
     read_leb128_internal N r =
     (Inr \<lparr>result = res, shift = sh, last_byte = ucast (remaining r ! c)\<rparr>,
      r\<lparr>remaining := drop (c + 1) (remaining r)\<rparr>)"
proof -
  let ?bs = "remaining r"
  let ?pre = "takeWhile continues ?bs"
  have "dropWhile continues ?bs \<noteq> []"
    using lt(2) c by (metis append_Nil2 takeWhile_dropWhile_id less_irrefl)
  then obtain b rest where d: "dropWhile continues ?bs = b # rest"
    by (cases "dropWhile continues ?bs") auto
  have b: "\<not> continues b"
    using hd_dropWhile [of continues ?bs] d by simp
  have bs: "?bs = ?pre @ b # rest"
    using takeWhile_dropWhile_id [of continues ?bs] d by simp
  have pre: "\<forall>x\<in>set ?pre. continues x"
    by (auto dest: set_takeWhileD)
  have len: "7 * length ?pre < nat N"
    using lt(1) groups_bound [OF N(1), of c] unfolding c by blast
  have dc: "drop c ?bs = b # rest"
    using d unfolding c dropWhile_eq_drop .
  have nth: "?bs ! c = b"
    using hd_drop_conv_nth [OF lt(2)] dc by simp
  have "drop (Suc c) ?bs = tl (drop c ?bs)"
    by (simp add: drop_Suc tl_drop)
  then have drop: "drop (Suc c) ?bs = rest"
    using dc by simp
  show ?thesis
    using internal_success [OF N bs pre b len] by (simp add: nth drop c [symmetric])
qed

lemma stops_invalid:
  assumes N: "1 \<le> N" "N \<le> 64"
    and c: "c = length (takeWhile continues (remaining r))"
    and m: "m = nat ((N + 6) div 7)"
    and le: "m \<le> c"
  shows "read_leb128_internal N r = (Inl InvalidLEB128, r\<lparr>remaining := drop m (remaining r)\<rparr>)"
proof -
  let ?bs = "remaining r"
  have m1: "1 \<le> m"
    using N m by simp
  have cl: "c \<le> length ?bs"
    unfolding c by (rule length_takeWhile_le)
  have bs: "?bs = take (m - 1) ?bs @ ?bs ! (m - 1) # drop m ?bs"
    using id_take_nth_drop [of "m - 1" ?bs] m1 le cl by simp
  have inpre: "continues (?bs ! i)" if "i < m" for i
  proof -
    have "i < length (takeWhile continues ?bs)"
      using that le c by simp
    then show ?thesis
      by (metis nth_mem set_takeWhileD takeWhile_nth)
  qed
  have pre: "\<forall>x\<in>set (take (m - 1) ?bs). continues x"
  proof
    fix x assume "x \<in> set (take (m - 1) ?bs)"
    then obtain i where "i < m - 1" "i < length ?bs" "x = ?bs ! i"
      by (auto simp: in_set_conv_nth)
    then show "continues x"
      using inpre [of i] by simp
  qed
  have b: "continues (?bs ! (m - 1))"
    using inpre [of "m - 1"] m1 by simp
  have l: "length (take (m - 1) ?bs) = m - 1"
    using m1 le cl by simp
  have "m - 1 < nat ((N + 6) div 7)"
    using m m1 by simp
  then have len1: "7 * length (take (m - 1) ?bs) < nat N"
    unfolding l using groups_bound [OF N(1), of "m - 1"] by blast
  have "\<not> m < nat ((N + 6) div 7)"
    using m by simp
  then have "\<not> 7 * m < nat N"
    using groups_bound [OF N(1), of m] by blast
  then have len2: "nat N \<le> 7 * length (take (m - 1) ?bs) + 7"
    unfolding l using m1 by linarith
  show ?thesis
    using internal_invalid [OF N bs pre b len1 len2] .
qed

lemma stops_end:
  assumes N: "1 \<le> N" "N \<le> 64"
    and c: "c = length (takeWhile continues (remaining r))"
    and lt: "c < nat ((N + 6) div 7)" "c = length (remaining r)"
  shows "read_leb128_internal N r = (Inl UnexpectedEndOfModule, r\<lparr>remaining := []\<rparr>)"
proof -
  let ?bs = "remaining r"
  have "takeWhile continues ?bs = ?bs"
    using lt(2) c by (metis append_Nil2 append_eq_append_conv takeWhile_dropWhile_id
        append_self_conv length_0_conv length_append add_cancel_left_right)
  then have pre: "\<forall>x\<in>set ?bs. continues x"
    by (metis set_takeWhileD)
  have len: "7 * length ?bs < nat N"
    using lt groups_bound [OF N(1), of c] by metis
  show ?thesis
    using internal_end [OF N refl pre len] .
qed

text \<open>
  The three outcomes of the shared loop \<open>read_leb128_internal\<close>, with the shift and the
  last byte it reports on success.
\<close>

lemma internal_stops:
  assumes "1 \<le> N" "N \<le> 64"
    and "bs = remaining r" and "c = length (takeWhile continues bs)"
    and "m = nat ((N + 6) div 7)"
  shows "(c < m \<and> c < length bs \<longrightarrow>
            (case read_leb128_internal N r of
               (Inl e, r') \<Rightarrow> False
             | (Inr p, r') \<Rightarrow>
                 unat (shift p) = 7 * (c + 1) \<and> last_byte p = ucast (bs ! c) \<and>
                 r' = r\<lparr>remaining := drop (c + 1) bs\<rparr>)) \<and>
         (m \<le> c \<longrightarrow>
            read_leb128_internal N r = (Inl InvalidLEB128, r\<lparr>remaining := drop m bs\<rparr>)) \<and>
         (c < m \<and> c = length bs \<longrightarrow>
            read_leb128_internal N r = (Inl UnexpectedEndOfModule, r\<lparr>remaining := []\<rparr>)) \<and>
         (fst (read_leb128_internal N r) = Inl InvalidLEB128 \<longleftrightarrow> m \<le> c) \<and>
         length bs - length (remaining (snd (read_leb128_internal N r))) \<le> m"
proof -
  note N = assms(1,2)
  have c: "c = length (takeWhile continues (remaining r))"
    using assms(3,4) by simp
  have cl: "c \<le> length bs"
    unfolding assms(4) by (rule length_takeWhile_le)
  have ok: "\<exists>res sh. unat sh = 7 * (c + 1) \<and> take_bit (7 * (c + 1)) res = res \<and>
       read_leb128_internal N r =
       (Inr \<lparr>result = res, shift = sh, last_byte = ucast (bs ! c)\<rparr>,
        r\<lparr>remaining := drop (c + 1) bs\<rparr>)"
    if "c < m" "c < length bs"
    using stops_success [OF N c] that unfolding assms(3,5) by blast
  have bad: "read_leb128_internal N r = (Inl InvalidLEB128, r\<lparr>remaining := drop m bs\<rparr>)"
    if "m \<le> c"
    using stops_invalid [OF N c assms(5) that] unfolding assms(3) .
  have short: "read_leb128_internal N r = (Inl UnexpectedEndOfModule, r\<lparr>remaining := []\<rparr>)"
    if "c < m" "c = length bs"
    using stops_end [OF N c] that unfolding assms(3,5) by blast
  consider (ok) "c < m" "c < length bs" | (bad) "m \<le> c" | (short) "c < m" "c = length bs"
    using cl by linarith
  then show ?thesis
  proof cases
    case ok
    from ok(1,2) obtain res sh where "unat sh = 7 * (c + 1)"
      "read_leb128_internal N r =
       (Inr \<lparr>result = res, shift = sh, last_byte = ucast (bs ! c)\<rparr>,
        r\<lparr>remaining := drop (c + 1) bs\<rparr>)"
      using \<open>\<lbrakk>c < m; c < length bs\<rbrakk> \<Longrightarrow> \<exists>res sh. _\<close> by blast
    with ok show ?thesis by simp
  next
    case bad
    with cl show ?thesis
      by (simp add: \<open>m \<le> c \<Longrightarrow> read_leb128_internal N r = _\<close>)
  next
    case short
    then show ?thesis
      by (simp add: \<open>\<lbrakk>c < m; c = length bs\<rbrakk> \<Longrightarrow> read_leb128_internal N r = _\<close>)
  qed
qed

text \<open>
  C1. For a width \<open>N\<close> between 1 and 64, let \<open>c\<close> be the number of leading bytes of the
  input whose continuation bit is set and \<open>m = ceil (N / 7)\<close> the number of bytes after
  which the running shift has reached \<open>N\<close>. If a byte with a clear continuation bit
  comes before the shift reaches \<open>N\<close>, the unsigned decode succeeds, having read exactly
  up to that byte, and the loop under it reports the shift \<open>7 * (c + 1)\<close> and that byte
  as the last one. If the first \<open>m\<close> bytes all have the bit set, the unsigned decode
  fails with the invalid-integer error after exactly \<open>m\<close> bytes, and this is the only way
  it fails with that error. If the input ends first, it fails with the unexpected-end
  error. It never reads more than \<open>m\<close> bytes, which is 10 for \<open>N = 64\<close>.
\<close>

theorem read_leb128_unsigned_stops:
  assumes "1 \<le> N" "N \<le> 64"
    and "bs = remaining r" and "c = length (takeWhile continues bs)"
    and "m = nat ((N + 6) div 7)"
  shows "(c < m \<and> c < length bs \<longrightarrow>
            (case read_leb128_unsigned N r of
               (Inl e, r') \<Rightarrow> False
             | (Inr v, r') \<Rightarrow> r' = r\<lparr>remaining := drop (c + 1) bs\<rparr>) \<and>
            (case read_leb128_internal N r of
               (Inl e, r') \<Rightarrow> False
             | (Inr p, r') \<Rightarrow>
                 unat (shift p) = 7 * (c + 1) \<and> last_byte p = ucast (bs ! c) \<and>
                 fst (read_leb128_unsigned N r) = Inr (result p))) \<and>
         (m \<le> c \<longrightarrow>
            read_leb128_unsigned N r = (Inl InvalidLEB128, r\<lparr>remaining := drop m bs\<rparr>)) \<and>
         (c < m \<and> c = length bs \<longrightarrow>
            read_leb128_unsigned N r = (Inl UnexpectedEndOfModule, r\<lparr>remaining := []\<rparr>)) \<and>
         (fst (read_leb128_unsigned N r) = Inl InvalidLEB128 \<longleftrightarrow> m \<le> c) \<and>
         length bs - length (remaining (snd (read_leb128_unsigned N r))) \<le> m"
proof -
  note I = internal_stops [OF assms]
  have cl: "c \<le> length bs"
    unfolding assms(4) by (rule length_takeWhile_le)
  consider (ok) "c < m" "c < length bs" | (bad) "m \<le> c" | (short) "c < m" "c = length bs"
    using cl by linarith
  then show ?thesis
  proof cases
    case ok
    with I obtain p where "read_leb128_internal N r =
        (Inr p, r\<lparr>remaining := drop (c + 1) bs\<rparr>)"
      and "unat (shift p) = 7 * (c + 1)" and "last_byte p = ucast (bs ! c)"
      by (auto split: prod.splits sum.splits)
    with ok show ?thesis
      by (simp add: read_leb128_unsigned_def)
  next
    case bad
    with I have "read_leb128_internal N r = (Inl InvalidLEB128, r\<lparr>remaining := drop m bs\<rparr>)"
      by blast
    with bad cl show ?thesis
      by (simp add: read_leb128_unsigned_def)
  next
    case short
    with I have "read_leb128_internal N r = (Inl UnexpectedEndOfModule, r\<lparr>remaining := []\<rparr>)"
      by blast
    with short show ?thesis
      by (simp add: read_leb128_unsigned_def)
  qed
qed

theorem read_leb128_unsigned_stops_witness:
  "read_leb128_unsigned 64
     \<lparr>remaining = [0xC9, 0xF4, 0x9E, 0xDD, 0x8E, 0xD8, 0xA4, 0xE5, 0xEF, 0xEF, 0x01]\<rparr> =
     (Inl InvalidLEB128, \<lparr>remaining = [0x01]\<rparr>) \<and>
   (case read_leb128_unsigned 64
       \<lparr>remaining = [0xC9, 0xF4, 0x9E, 0xDD, 0x8E, 0xD8, 0xA4, 0xE5, 0xEF, 0x01]\<rparr> of
      (Inl e, r') \<Rightarrow> False
    | (Inr v, r') \<Rightarrow> r' = \<lparr>remaining = []\<rparr>) \<and>
   (case read_leb128_internal 64
       \<lparr>remaining = [0xC9, 0xF4, 0x9E, 0xDD, 0x8E, 0xD8, 0xA4, 0xE5, 0xEF, 0x01]\<rparr> of
      (Inl e, r') \<Rightarrow> False
    | (Inr p, r') \<Rightarrow> unat (shift p) = 70 \<and> last_byte p = 1)"
proof -
  let ?long = "[0xC9, 0xF4, 0x9E, 0xDD, 0x8E, 0xD8, 0xA4, 0xE5, 0xEF, 0xEF, 0x01] :: u8 list"
  let ?max = "[0xC9, 0xF4, 0x9E, 0xDD, 0x8E, 0xD8, 0xA4, 0xE5, 0xEF, 0x01] :: u8 list"
  have N: "(1::int) \<le> 64" "(64::int) \<le> 64"
    by simp_all
  have m: "(10::nat) = nat (((64::int) + 6) div 7)"
    by simp
  have c_long: "10 = length (takeWhile continues ?long)"
    by (simp add: continues_def leb128_continue_def)
  have c_max: "9 = length (takeWhile continues ?max)"
    by (simp add: continues_def leb128_continue_def)
  have r_long: "?long = remaining \<lparr>remaining = ?long\<rparr>" and r_max: "?max = remaining \<lparr>remaining = ?max\<rparr>"
    by simp_all
  have "read_leb128_unsigned 64 \<lparr>remaining = ?long\<rparr> =
      (Inl InvalidLEB128, \<lparr>remaining = ?long\<rparr>\<lparr>remaining := drop 10 ?long\<rparr>)"
    using read_leb128_unsigned_stops [OF N r_long c_long m, THEN conjunct2, THEN conjunct1]
    by (rule mp) simp
  then have 1: "read_leb128_unsigned 64 \<lparr>remaining = ?long\<rparr> =
      (Inl InvalidLEB128, \<lparr>remaining = [0x01]\<rparr>)"
    by simp
  have "(case read_leb128_unsigned 64 \<lparr>remaining = ?max\<rparr> of
      (Inl e, r') \<Rightarrow> False
    | (Inr v, r') \<Rightarrow> r' = \<lparr>remaining = ?max\<rparr>\<lparr>remaining := drop (9 + 1) ?max\<rparr>) \<and>
    (case read_leb128_internal 64 \<lparr>remaining = ?max\<rparr> of
      (Inl e, r') \<Rightarrow> False
    | (Inr p, r') \<Rightarrow> unat (shift p) = 7 * (9 + 1) \<and> last_byte p = ucast (?max ! 9) \<and>
         fst (read_leb128_unsigned 64 \<lparr>remaining = ?max\<rparr>) = Inr (result p))"
    using read_leb128_unsigned_stops [OF N r_max c_max m, THEN conjunct1]
    by (rule mp) simp
  then have 2: "(case read_leb128_unsigned 64 \<lparr>remaining = ?max\<rparr> of
      (Inl e, r') \<Rightarrow> False
    | (Inr v, r') \<Rightarrow> r' = \<lparr>remaining = []\<rparr>) \<and>
    (case read_leb128_internal 64 \<lparr>remaining = ?max\<rparr> of
      (Inl e, r') \<Rightarrow> False
    | (Inr p, r') \<Rightarrow> unat (shift p) = 70 \<and> last_byte p = 1)"
    by (simp split: prod.splits sum.splits)
  from 1 2 show ?thesis ..
qed

subsection \<open>What a successful decode returns\<close>

lemma internal_Inr:
  assumes N: "1 \<le> N" "N \<le> 64"
    and ok: "read_leb128_internal N r = (Inr p, r')"
    and c: "c = length (takeWhile continues (remaining r))"
  shows "c < nat ((N + 6) div 7)" "c < length (remaining r)"
    "unat (shift p) = 7 * (c + 1)" "take_bit (7 * (c + 1)) (result p) = result p"
    "last_byte p = ucast (remaining r ! c)" "r' = r\<lparr>remaining := drop (c + 1) (remaining r)\<rparr>"
proof -
  let ?m = "nat ((N + 6) div 7)"
  have cl: "c \<le> length (remaining r)"
    unfolding c by (rule length_takeWhile_le)
  have 1: "c < ?m"
  proof (rule ccontr)
    assume "\<not> c < ?m"
    then have "?m \<le> c" by simp
    from stops_invalid [OF N c refl this] ok show False by simp
  qed
  have 2: "c < length (remaining r)"
  proof (rule ccontr)
    assume "\<not> c < length (remaining r)"
    then have "c = length (remaining r)" using cl by simp
    from stops_end [OF N c 1 this] ok show False by simp
  qed
  from stops_success [OF N c 1 2] ok
  have 3: "unat (shift p) = 7 * (c + 1) \<and> take_bit (7 * (c + 1)) (result p) = result p \<and>
    last_byte p = ucast (remaining r ! c) \<and> r' = r\<lparr>remaining := drop (c + 1) (remaining r)\<rparr>"
    by auto
  show "c < ?m" by (rule 1)
  show "c < length (remaining r)" by (rule 2)
  show "unat (shift p) = 7 * (c + 1)" "take_bit (7 * (c + 1)) (result p) = result p"
    "last_byte p = ucast (remaining r ! c)" "r' = r\<lparr>remaining := drop (c + 1) (remaining r)\<rparr>"
    using 3 by blast+
qed

lemma unsigned_Inr:
  "read_leb128_unsigned N r = (Inr v, r') \<Longrightarrow>
   \<exists>p. read_leb128_internal N r = (Inr p, r') \<and> v = result p"
  by (auto simp: read_leb128_unsigned_def split: prod.splits sum.splits)

lemma unsigned_bound:
  assumes N: "1 \<le> N" "N \<le> 64"
    and ok: "read_leb128_unsigned N r = (Inr v, r')"
  shows "unat v < 2 ^ (7 * nat ((N + 6) div 7))"
proof -
  define c where "c = length (takeWhile continues (remaining r))"
  from unsigned_Inr [OF ok] obtain p
    where p: "read_leb128_internal N r = (Inr p, r')" and v: "v = result p"
    by blast
  note I = internal_Inr [OF N p c_def]
  have "take_bit (7 * (c + 1)) v = v"
    using I(4) v by simp
  then have "unat v = take_bit (7 * (c + 1)) (unat v)"
    by (metis unsigned_take_bit_eq)
  also have "\<dots> < 2 ^ (7 * (c + 1))"
    by (rule take_bit_nat_less_exp)
  also have "(2::nat) ^ (7 * (c + 1)) \<le> 2 ^ (7 * nat ((N + 6) div 7))"
    using I(1) by (intro power_increasing) simp_all
  finally show ?thesis .
qed

text \<open>
  C10. The unsigned decode does not look at the high bits of the last group: at width 8
  the two bytes 0xFF 0x7F are accepted and give 16383, which does not fit in 8 bits. What
  a successful decode at a width \<open>N\<close> between 1 and 64 does guarantee is a value below
  \<open>2 ^ (7 * ceil (N / 7))\<close>.
\<close>

theorem unsigned_high_bits_unchecked:
  "read_leb128_unsigned 8 \<lparr>remaining = [0xFF, 0x7F]\<rparr> = (Inr 16383, \<lparr>remaining = []\<rparr>) \<and>
   \<not> unat (16383 :: u64) < 2 ^ 8 \<and>
   (\<forall>N r v r'. 1 \<le> N \<and> N \<le> 64 \<and> read_leb128_unsigned N r = (Inr v, r') \<longrightarrow>
      unat v < 2 ^ (7 * nat ((N + 6) div 7)))"
proof -
  let ?r = "\<lparr>remaining = [0xFF, 0x7F]\<rparr>"
  have 1: "read_leb128_loop 8 0 0 ?r = read_leb128_loop 8 0x7F 7 \<lparr>remaining = [0x7F]\<rparr>"
    by (subst read_leb128_loop.simps)
      (simp add: consume_Cons leb128_value_def leb128_continue_def bits_per_iteration_def)
  have 2: "read_leb128_loop 8 0x7F 7 \<lparr>remaining = [0x7F]\<rparr> =
      (Inr \<lparr>result = 16383, shift = 14, last_byte = 0x7F\<rparr>, \<lparr>remaining = []\<rparr>)"
    by (subst read_leb128_loop.simps)
      (simp add: consume_Cons leb128_value_def leb128_continue_def bits_per_iteration_def)
  have "read_leb128_unsigned 8 ?r = (Inr 16383, \<lparr>remaining = []\<rparr>)"
    by (simp add: read_leb128_unsigned_def read_leb128_internal_def 1 2)
  moreover have "\<not> unat (16383 :: u64) < 2 ^ 8"
    by simp
  ultimately show ?thesis
    using unsigned_bound by blast
qed

theorem unsigned_high_bits_unchecked_witness:
  "(1::int) \<le> 8 \<and> (8::int) \<le> 64 \<and>
   read_leb128_unsigned 8 \<lparr>remaining = [0xFF, 0x7F]\<rparr> = (Inr 16383, \<lparr>remaining = []\<rparr>) \<and>
   unat (16383 :: u64) < 2 ^ (7 * nat (((8::int) + 6) div 7)) \<and> \<not> unat (16383 :: u64) < 2 ^ 8"
proof -
  note T = unsigned_high_bits_unchecked
  have run: "read_leb128_unsigned 8 \<lparr>remaining = [0xFF, 0x7F]\<rparr> = (Inr 16383, \<lparr>remaining = []\<rparr>)"
    using T by (rule conjunct1)
  have "(1::int) \<le> 8 \<and> (8::int) \<le> 64 \<and>
      read_leb128_unsigned 8 \<lparr>remaining = [0xFF, 0x7F]\<rparr> = (Inr 16383, \<lparr>remaining = []\<rparr>)"
    using run by simp
  with T have "unat (16383 :: u64) < 2 ^ (7 * nat (((8::int) + 6) div 7))"
    by blast
  with run show ?thesis
    by simp
qed

lemma sign_test: "(x :: u64) AND leb128_sign \<noteq> 0 \<longleftrightarrow> bit x 6"
proof -
  have "leb128_sign = 2 ^ 6"
    by (simp add: leb128_sign_def)
  show ?thesis
    unfolding \<open>leb128_sign = 2 ^ 6\<close> and_exp_eq_0_iff_not_bit by simp
qed

lemma ones_from: "push_bit s (NOT 0 :: u64) = NOT (mask s)"
  by (simp add: push_bit_minus_one_eq_not_mask)

lemma signed_Inr:
  assumes "read_leb128_signed N r = (Inr v, r')"
  shows "\<exists>p. read_leb128_internal N r = (Inr p, r') \<and>
     v = (if unat (shift p) < 64 \<and> bit (last_byte p) 6
          then result p OR NOT (mask (unat (shift p))) else result p)"
proof -
  obtain x r0 where x: "read_leb128_internal N r = (x, r0)"
    by (cases "read_leb128_internal N r")
  show ?thesis
  proof (cases x)
    case (Inl e)
    with x assms show ?thesis
      by (simp add: read_leb128_signed_def)
  next
    case (Inr p)
    have lt: "shift p < 64 \<longleftrightarrow> unat (shift p) < 64"
      by (simp add: word_less_nat_alt)
    from x Inr assms show ?thesis
      unfolding read_leb128_signed_def sign_test ones_from
      using lt by (auto split: if_splits)
  qed
qed

text \<open>
  C3. Whenever the signed decode succeeds, the shared loop has succeeded with an
  accumulator, a total shift and a last byte, and the value returned is the accumulator
  with all bits from the shift position upward set when the shift is below 64 and bit 6
  of the last byte is set, and the accumulator itself otherwise. At width 8, a successful
  decode whose last byte read has bit 6 set returns a negative number.
\<close>

theorem read_leb128_signed_extends:
  "(read_leb128_signed N r = (Inr v, r') \<longrightarrow>
      (\<exists>p. read_leb128_internal N r = (Inr p, r') \<and>
         v = (if unat (shift p) < 64 \<and> bit (last_byte p) 6
              then result p OR NOT (mask (unat (shift p))) else result p))) \<and>
   (read_leb128_signed 8 r = (Inr w, r'') \<and>
      bit (remaining r ! (length (remaining r) - length (remaining r'') - 1)) 6 \<longrightarrow>
      sint w < 0)"
proof (intro conjI impI)
  assume "read_leb128_signed N r = (Inr v, r')"
  then show "\<exists>p. read_leb128_internal N r = (Inr p, r') \<and>
         v = (if unat (shift p) < 64 \<and> bit (last_byte p) 6
              then result p OR NOT (mask (unat (shift p))) else result p)"
    by (rule signed_Inr)
next
  assume a: "read_leb128_signed 8 r = (Inr w, r'') \<and>
      bit (remaining r ! (length (remaining r) - length (remaining r'') - 1)) 6"
  define c where "c = length (takeWhile continues (remaining r))"
  from a signed_Inr obtain p where p: "read_leb128_internal 8 r = (Inr p, r'')"
    and w: "w = (if unat (shift p) < 64 \<and> bit (last_byte p) 6
              then result p OR NOT (mask (unat (shift p))) else result p)"
    by blast
  have N: "(1::int) \<le> 8" "(8::int) \<le> 64"
    by simp_all
  note I = internal_Inr [OF N p c_def]
  have c2: "c < 2"
    using I(1) by simp
  then have s: "unat (shift p) < 64"
    using I(3) by simp
  have "length (remaining r'') = length (remaining r) - (c + 1)"
    using I(6) by simp
  then have "length (remaining r) - length (remaining r'') - 1 = c"
    using I(2) by simp
  then have "bit (remaining r ! c) 6"
    using a by simp
  then have b: "bit (last_byte p) 6"
    unfolding I(5) by (simp add: bit_ucast_iff)
  have "w = result p OR NOT (mask (unat (shift p)))"
    using w s b by simp
  then have "bit w 63"
    using s by (simp add: bit_or_iff bit_not_iff bit_mask_iff)
  then show "sint w < 0"
    using bit_last_iff [of w] by simp
qed

theorem read_leb128_signed_extends_witness:
  "read_leb128_signed 8 \<lparr>remaining = [0x7F]\<rparr> = (Inr (- 1), \<lparr>remaining = []\<rparr>) \<and>
   bit (0x7F :: u8) 6 \<and> sint (- 1 :: i64) < 0 \<and>
   (\<exists>p. read_leb128_internal 8 \<lparr>remaining = [0x7F]\<rparr> = (Inr p, \<lparr>remaining = []\<rparr>) \<and>
      (- 1 :: i64) = (if unat (shift p) < 64 \<and> bit (last_byte p) 6
              then result p OR NOT (mask (unat (shift p))) else result p))"
proof -
  let ?r = "\<lparr>remaining = [0x7F]\<rparr>"
  have 1: "read_leb128_loop 8 0 0 ?r =
      (Inr \<lparr>result = 0x7F, shift = 7, last_byte = 0x7F\<rparr>, \<lparr>remaining = []\<rparr>)"
    by (subst read_leb128_loop.simps)
      (simp add: consume_Cons leb128_value_def leb128_continue_def bits_per_iteration_def)
  have "(127 :: u64) = mask 7"
    by (simp add: mask_numeral)
  have e: "(127 :: u64) OR NOT (mask 7) = - 1"
    unfolding \<open>(127 :: u64) = mask 7\<close> by (rule word_or_not)
  have run: "read_leb128_signed 8 ?r = (Inr (- 1), \<lparr>remaining = []\<rparr>)"
    by (simp add: read_leb128_signed_def read_leb128_internal_def 1 leb128_sign_def e)
  have b: "bit (0x7F :: u8) 6"
    by simp
  have "bit (remaining ?r ! (length (remaining ?r) - length (remaining \<lparr>remaining = []\<rparr>) - 1)) 6"
    using b by simp
  with run read_leb128_signed_extends [of 8 ?r "- 1" "\<lparr>remaining = []\<rparr>" "- 1" "\<lparr>remaining = []\<rparr>"]
  have "(\<exists>p. read_leb128_internal 8 ?r = (Inr p, \<lparr>remaining = []\<rparr>) \<and>
      (- 1 :: i64) = (if unat (shift p) < 64 \<and> bit (last_byte p) 6
              then result p OR NOT (mask (unat (shift p))) else result p)) \<and>
     sint (- 1 :: i64) < 0"
    by blast
  with run b show ?thesis
    by blast
qed

subsection \<open>Round trip with the encoder\<close>

declare encode_unsigned.simps [simp del]
declare encode_signed.simps [simp del]

lemma low_group: "(x :: u64) AND leb128_value = take_bit 7 x"
  by (simp add: leb128_value_def take_bit_eq_mask mask_numeral)

lemma continue_test: "(x :: u64) AND leb128_continue \<noteq> 0 \<longleftrightarrow> bit x 7"
proof -
  have "leb128_continue = 2 ^ 7"
    by (simp add: leb128_continue_def)
  show ?thesis
    unfolding \<open>leb128_continue = 2 ^ 7\<close> and_exp_eq_0_iff_not_bit by simp
qed

lemma continues_bit: "continues b \<longleftrightarrow> bit b 7"
  by (simp add: continues_def continue_test bit_ucast_iff)

lemma bit7_nat:
  fixes g :: nat
  assumes "g < 128"
  shows "bit (g + 128) 7" and "\<not> bit g 7"
proof -
  have "(g + 128) div 128 = Suc (g div 128)"
    by simp
  then have "(g + 128) div 2 ^ 7 = 1" and "g div 2 ^ 7 = 0"
    using assms by simp_all
  then show "bit (g + 128) 7" and "\<not> bit g 7"
    unfolding bit_iff_odd by simp_all
qed

lemma bit7_int:
  fixes g :: int
  assumes "0 \<le> g" "g < 128"
  shows "bit (g + 128) 7" and "\<not> bit g 7"
proof -
  have "(g + 128) div 128 = g div 128 + 1"
    by simp
  then have "(g + 128) div 2 ^ 7 = 1" and "g div 2 ^ 7 = 0"
    using assms by simp_all
  then show "bit (g + 128) 7" and "\<not> bit g 7"
    unfolding bit_iff_odd by simp_all
qed

lemma unsigned_byte:
  fixes g :: nat
  assumes "g < 128"
  shows "continues (word_of_nat (g + 128))" and "\<not> continues (word_of_nat g)"
    and "(ucast (word_of_nat (g + 128) :: u8) :: u64) AND leb128_value = word_of_nat g"
    and "(ucast (word_of_nat g :: u8) :: u64) AND leb128_value = word_of_nat g"
proof -
  show "continues (word_of_nat (g + 128))" and "\<not> continues (word_of_nat g)"
    unfolding continues_bit bit_of_nat_iff using bit7_nat [OF assms] by simp_all
  have t: "take_bit 7 (g + 128) = g" "take_bit 7 g = g"
    using assms by (simp_all add: take_bit_eq_mod)
  have "(ucast (word_of_nat n :: u8) :: u64) AND leb128_value = word_of_nat (take_bit 7 n)" for n
    unfolding low_group by (rule bit_word_eqI) (auto simp: bit_simps)
  from this [of "g + 128"] this [of g] t
  show "(ucast (word_of_nat (g + 128) :: u8) :: u64) AND leb128_value = word_of_nat g"
    and "(ucast (word_of_nat g :: u8) :: u64) AND leb128_value = word_of_nat g"
    by simp_all
qed

lemma split_group_nat:
  "(word_of_nat v :: u64) = word_of_nat (v mod 128) OR push_bit 7 (word_of_nat (v div 128))"
proof -
  have "v = take_bit 7 v OR push_bit 7 (drop_bit 7 v)"
  proof (rule bit_eqI)
    fix n
    show "bit v n \<longleftrightarrow> bit (take_bit 7 v OR push_bit 7 (drop_bit 7 v)) n"
      by (cases "n < 7") (simp_all add: bit_simps)
  qed
  then have "v = v mod 128 OR push_bit 7 (v div 128)"
    by (simp add: take_bit_eq_mod drop_bit_eq_div)
  then have "(word_of_nat v :: u64) = word_of_nat (v mod 128 OR push_bit 7 (v div 128))"
    by simp
  then show ?thesis
    by (simp only: of_nat_or_eq of_nat_push_bit)
qed

lemma group_room:
  fixes v :: nat
  assumes "128 \<le> v" "v < 2 ^ (W - s)"
  shows "s + 7 < W" and "v div 128 < 2 ^ (W - (s + 7))"
proof -
  define d where "d = W - (s + 7)"
  have "(2::nat) ^ 7 \<le> v"
    using assms(1) by simp
  also note assms(2)
  finally have "7 < W - s"
    by (simp only: power_strict_increasing_iff)
  then show "s + 7 < W"
    by simp
  then have "W - s = 7 + d"
    unfolding d_def by simp
  have "v < 2 ^ (7 + d)"
    using assms(2) unfolding \<open>W - s = 7 + d\<close> .
  then have "v < 2 ^ d * 128"
    by (simp only: power_add) simp
  then have "v div 128 < 2 ^ d"
    by (rule less_mult_imp_div_less)
  then show "v div 128 < 2 ^ (W - (s + 7))"
    unfolding d_def .
qed

lemma loop_encode_unsigned:
  assumes N: "1 \<le> N" "N \<le> 64"
  shows "unat sh = s \<Longrightarrow> s < 64 \<Longrightarrow> v < 2 ^ (nat N - s) \<Longrightarrow>
     remaining r = encode_unsigned v @ rest \<Longrightarrow>
     \<exists>sh' lb. read_leb128_loop N res sh r =
       (Inr \<lparr>result = res OR push_bit s (word_of_nat v), shift = sh', last_byte = lb\<rparr>,
        r\<lparr>remaining := rest\<rparr>)"
proof (induction v arbitrary: res sh s r rule: encode_unsigned.induct)
  case (1 v)
  show ?case
  proof (cases "v < 128")
    case True
    then have rem: "remaining r = word_of_nat v # rest"
      using "1.prems"(4) by (simp add: encode_unsigned.simps [of v])
    from loop_done [OF rem "1.prems"(1,2) unsigned_byte(2) [OF True], of N res]
    show ?thesis
      unfolding unsigned_byte(4) [OF True] by blast
  next
    case False
    let ?g = "v mod 128"
    let ?res = "res OR push_bit s (word_of_nat ?g)"
    let ?sh = "sh + bits_per_iteration"
    let ?r = "r\<lparr>remaining := encode_unsigned (v div 128) @ rest\<rparr>"
    have g: "?g < 128"
      by simp
    have rem: "remaining r = word_of_nat (?g + 128) # encode_unsigned (v div 128) @ rest"
      using "1.prems"(4) False by (simp add: encode_unsigned.simps [of v])
    from False have big: "128 \<le> v"
      by simp
    note room = group_room [OF big "1.prems"(3)]
    have step: "read_leb128_loop N res sh r = read_leb128_loop N ?res ?sh ?r"
      using loop_continue [OF rem "1.prems"(1,2) unsigned_byte(1) [OF g] N room(1), of res]
      unfolding unsigned_byte(3) [OF g] .
    have sh': "unat ?sh = s + 7"
      using "1.prems"(1,2) by (rule shift_step)
    have s7: "s + 7 < 64"
      using room(1) N by linarith
    have "remaining ?r = encode_unsigned (v div 128) @ rest"
      by simp
    from "1.IH" [OF False sh' s7 room(2) this, of ?res]
    obtain sh'' lb where run: "read_leb128_loop N ?res ?sh ?r =
       (Inr \<lparr>result = ?res OR push_bit (s + 7) (word_of_nat (v div 128)),
             shift = sh'', last_byte = lb\<rparr>, ?r\<lparr>remaining := rest\<rparr>)"
      by blast
    have "?res OR push_bit (s + 7) (word_of_nat (v div 128)) =
        res OR push_bit s (word_of_nat ?g OR push_bit 7 (word_of_nat (v div 128)))"
      by (simp add: push_bit_or push_bit_push_bit or.assoc add.commute)
    also have "\<dots> = res OR push_bit s (word_of_nat v)"
      by (simp only: split_group_nat [symmetric])
    finally show ?thesis
      unfolding step run by simp
  qed
qed

lemma unsigned_round_trip:
  assumes "1 \<le> N" "N \<le> 64" and "v < 2 ^ nat N"
    and "remaining r = encode_unsigned v @ rest"
  shows "read_leb128_unsigned N r = (Inr (word_of_nat v), r\<lparr>remaining := rest\<rparr>)"
    and "unat (word_of_nat v :: u64) = v"
proof -
  have "unat (0 :: u64) = 0" "(0::nat) < 64" "v < 2 ^ (nat N - 0)"
    using assms(3) by simp_all
  from loop_encode_unsigned [OF assms(1,2) this assms(4), of 0]
  show "read_leb128_unsigned N r = (Inr (word_of_nat v), r\<lparr>remaining := rest\<rparr>)"
    by (auto simp: read_leb128_unsigned_def read_leb128_internal_def)
  have "(2::nat) ^ nat N \<le> 2 ^ 64"
    using assms(2) by (intro power_increasing) simp_all
  then have "v < 2 ^ 64"
    using assms(3) by simp
  then show "unat (word_of_nat v :: u64) = v"
    by (simp add: unat_of_nat)
qed

lemma signed_done_iff:
  fixes v :: int
  shows "(v div 128 = 0 \<and> v mod 128 < 64) \<or> (v div 128 = - 1 \<and> 64 \<le> v mod 128) \<longleftrightarrow>
         - 64 \<le> v \<and> v < 64"
proof -
  define q m where "q = v div 128" and "m = v mod 128"
  have v: "v = 128 * q + m" and m: "0 \<le> m" "m < 128"
    by (simp_all add: q_def m_def)
  have "(q = 0 \<and> m < 64) \<or> (q = - 1 \<and> 64 \<le> m) \<longleftrightarrow> - 64 \<le> v \<and> v < 64"
    using v m by linarith
  then show ?thesis
    by (simp only: q_def m_def)
qed

lemma encode_signed_unfold:
  "encode_signed v =
     (if - 64 \<le> v \<and> v < 64 then [word_of_int (v mod 128)]
      else word_of_int (v mod 128 + 128) # encode_signed (v div 128))"
  by (subst encode_signed.simps) (simp only: Let_def signed_done_iff)

lemma high_bits_clear:
  fixes v :: int
  assumes "0 \<le> v" "v < 2 ^ m" "m \<le> n"
  shows "\<not> bit v n"
proof -
  have "take_bit m v = v"
    using assms(1,2) by (simp add: take_bit_int_eq_self)
  then have "bit v n \<longleftrightarrow> bit (take_bit m v) n"
    by simp
  then show ?thesis
    using assms(3) by (simp add: bit_take_bit_iff)
qed

lemma high_bits_set:
  fixes v :: int
  assumes "- (2 ^ m) \<le> v" "v < 0" "m \<le> n"
  shows "bit v n"
proof -
  have "0 \<le> NOT v" "NOT v < 2 ^ m"
    using assms(1,2) by (simp_all add: not_int_def)
  then have "\<not> bit (NOT v) n"
    using assms(3) by (rule high_bits_clear)
  then show ?thesis
    by (simp add: bit_not_int_iff)
qed

lemma bit6_sign:
  fixes v :: int
  assumes "- 64 \<le> v" "v < 64"
  shows "bit v 6 \<longleftrightarrow> v < 0"
proof (cases "v < 0")
  case True
  then show ?thesis
    using high_bits_set [of 6 v 6] assms by simp
next
  case False
  then show ?thesis
    using high_bits_clear [of v 6 6] assms by simp
qed

lemma low_group_int:
  "(ucast (word_of_int x :: u8) :: u64) AND leb128_value = word_of_int (take_bit 7 x)"
  unfolding low_group by (rule bit_word_eqI) (auto simp: bit_simps)

lemma take_bit_word_of_int:
  "n \<le> 64 \<Longrightarrow> take_bit n (word_of_int x :: u64) = word_of_int (take_bit n x)"
  by (rule bit_word_eqI) (auto simp: bit_simps)

lemma signed_byte:
  fixes v :: int
  shows "continues (word_of_int (v mod 128 + 128))" and "\<not> continues (word_of_int (v mod 128))"
    and "(ucast (word_of_int (v mod 128 + 128) :: u8) :: u64) AND leb128_value =
         take_bit 7 (word_of_int v)"
    and "(ucast (word_of_int (v mod 128) :: u8) :: u64) AND leb128_value =
         take_bit 7 (word_of_int v)"
    and "bit (ucast (word_of_int (v mod 128) :: u8) :: u64) 6 \<longleftrightarrow> bit v 6"
proof -
  have g: "0 \<le> v mod 128" "v mod 128 < 128"
    by simp_all
  show "continues (word_of_int (v mod 128 + 128))" and "\<not> continues (word_of_int (v mod 128))"
    unfolding continues_bit bit_word_of_int_iff using bit7_int [OF g] by simp_all
  have t: "take_bit 7 (v mod 128 + 128) = take_bit 7 v" "take_bit 7 (v mod 128) = take_bit 7 v"
    by (simp_all add: take_bit_eq_mod)
  show "(ucast (word_of_int (v mod 128 + 128) :: u8) :: u64) AND leb128_value =
         take_bit 7 (word_of_int v)"
    and "(ucast (word_of_int (v mod 128) :: u8) :: u64) AND leb128_value =
         take_bit 7 (word_of_int v)"
    unfolding low_group_int t by (simp_all add: take_bit_word_of_int)
  have "bit (v mod 128) 6 \<longleftrightarrow> bit (take_bit 7 v) 6"
    by (simp add: take_bit_eq_mod)
  then show "bit (ucast (word_of_int (v mod 128) :: u8) :: u64) 6 \<longleftrightarrow> bit v 6"
    by (simp add: bit_simps)
qed

lemma join_groups:
  fixes v :: int
  shows "take_bit 7 (word_of_int v :: u64) OR push_bit 7 (take_bit m (word_of_int (v div 128))) =
         take_bit (7 + m) (word_of_int v)"
proof (rule bit_word_eqI)
  fix n
  assume "n < LENGTH(64)"
  have d: "v div 128 = drop_bit 7 v"
    by (simp add: drop_bit_eq_div)
  show "bit (take_bit 7 (word_of_int v :: u64) OR
        push_bit 7 (take_bit m (word_of_int (v div 128)))) n \<longleftrightarrow>
      bit (take_bit (7 + m) (word_of_int v :: u64)) n"
  proof (cases "n < 7")
    case True
    then show ?thesis
      by (simp add: bit_simps)
  next
    case False
    then have "n = 7 + (n - 7)"
      by simp
    then show ?thesis
      using False \<open>n < LENGTH(64)\<close> unfolding d
      by (auto simp: bit_simps)
  qed
qed

lemma signed_group_room:
  fixes v :: int
  assumes out: "\<not> (- 64 \<le> v \<and> v < 64)"
    and lo: "- (2 ^ (W - s - 1)) \<le> v" and hi: "v < 2 ^ (W - s - 1)"
  shows "s + 7 < W" and "- (2 ^ (W - (s + 7) - 1)) \<le> v div 128"
    and "v div 128 < 2 ^ (W - (s + 7) - 1)"
proof -
  define d where "d = W - (s + 7) - 1"
  define D :: int where "D = 2 ^ d"
  define P :: int where "P = 2 ^ (W - s - 1)"
  have "64 < P"
    using out lo hi unfolding P_def [symmetric] by linarith
  then have "(2::int) ^ 6 < 2 ^ (W - s - 1)"
    unfolding P_def by simp
  then have "6 < W - s - 1"
    by (simp only: power_strict_increasing_iff)
  then show "s + 7 < W"
    by simp
  then have "W - s - 1 = 7 + d"
    unfolding d_def by simp
  have "- (2 ^ (7 + d)) \<le> v" "v < 2 ^ (7 + d)"
    using lo hi unfolding \<open>W - s - 1 = 7 + d\<close> .
  then have b: "- (128 * D) \<le> v" "v < 128 * D"
    unfolding D_def by (simp_all add: power_add)
  define q m where "q = v div 128" and "m = v mod 128"
  have v: "v = 128 * q + m" and m: "0 \<le> m" "m < 128"
    by (simp_all add: q_def m_def)
  have "- D \<le> q" "q < D"
    using b v m by linarith+
  then have "- (2 ^ d) \<le> v div 128" "v div 128 < 2 ^ d"
    unfolding D_def q_def .
  then show "- (2 ^ (W - (s + 7) - 1)) \<le> v div 128" "v div 128 < 2 ^ (W - (s + 7) - 1)"
    unfolding d_def .
qed

lemma widen_signed_bounds:
  fixes v :: int
  assumes "1 \<le> k" "- (2 ^ (7 * k - 1)) \<le> v div 128" "v div 128 < 2 ^ (7 * k - 1)"
  shows "- (2 ^ (7 * (k + 1) - 1)) \<le> v" and "v < 2 ^ (7 * (k + 1) - 1)"
proof -
  define e where "e = 7 * k - 1"
  define E :: int where "E = 2 ^ e"
  have "7 * (k + 1) - 1 = 7 + e"
    using assms(1) unfolding e_def by simp
  then have p: "(2::int) ^ (7 * (k + 1) - 1) = 128 * E"
    unfolding E_def by (simp add: power_add)
  define q m where "q = v div 128" and "m = v mod 128"
  have v: "v = 128 * q + m" and m: "0 \<le> m" "m < 128"
    by (simp_all add: q_def m_def)
  have "- E \<le> q" "q < E"
    using assms(2,3) unfolding E_def e_def q_def .
  then show "- (2 ^ (7 * (k + 1) - 1)) \<le> v" and "v < 2 ^ (7 * (k + 1) - 1)"
    unfolding p using v m by linarith+
qed

lemma loop_encode_signed:
  assumes N: "1 \<le> N" "N \<le> 64"
  shows "unat sh = s \<Longrightarrow> s < 64 \<Longrightarrow> - (2 ^ (nat N - s - 1)) \<le> v \<Longrightarrow> v < 2 ^ (nat N - s - 1) \<Longrightarrow>
     remaining r = encode_signed v @ rest \<Longrightarrow>
     \<exists>sh' lb k. 1 \<le> k \<and> unat sh' = s + 7 * k \<and>
       - (2 ^ (7 * k - 1)) \<le> v \<and> v < 2 ^ (7 * k - 1) \<and> (bit lb 6 \<longleftrightarrow> v < 0) \<and>
       read_leb128_loop N res sh r =
         (Inr \<lparr>result = res OR push_bit s (take_bit (7 * k) (word_of_int v)),
               shift = sh', last_byte = lb\<rparr>, r\<lparr>remaining := rest\<rparr>)"
proof (induction v arbitrary: res sh s r rule: encode_signed.induct)
  case (1 v)
  show ?case
  proof (cases "- 64 \<le> v \<and> v < 64")
    case True
    let ?b = "word_of_int (v mod 128) :: u8"
    have rem: "remaining r = ?b # rest"
      using "1.prems"(5) True by (simp add: encode_signed_unfold [of v])
    have run: "read_leb128_loop N res sh r =
        (Inr \<lparr>result = res OR push_bit s (take_bit 7 (word_of_int v)),
              shift = sh + bits_per_iteration, last_byte = ucast ?b\<rparr>, r\<lparr>remaining := rest\<rparr>)"
      using loop_done [OF rem "1.prems"(1,2) signed_byte(2), of N res]
      unfolding signed_byte(4) .
    have sh': "unat (sh + bits_per_iteration) = s + 7 * 1"
      using shift_step [OF "1.prems"(1,2)] by simp
    have b: "- (2 ^ (7 * 1 - 1)) \<le> v" "v < 2 ^ (7 * 1 - 1)"
      using True by simp_all
    have sg: "bit (ucast ?b :: u64) 6 \<longleftrightarrow> v < 0"
      unfolding signed_byte(5) using True by (intro bit6_sign) simp_all
    have "(1::nat) \<le> 1"
      by simp
    with sh' b sg run show ?thesis
      by (metis mult.right_neutral)
  next
    case False
    let ?x = "word_of_int v :: u64"
    let ?res = "res OR push_bit s (take_bit 7 ?x)"
    let ?sh = "sh + bits_per_iteration"
    let ?r = "r\<lparr>remaining := encode_signed (v div 128) @ rest\<rparr>"
    have rem: "remaining r =
        word_of_int (v mod 128 + 128) # encode_signed (v div 128) @ rest"
      using "1.prems"(5) False by (simp add: encode_signed_unfold [of v])
    note room = signed_group_room [OF False "1.prems"(3,4)]
    have step: "read_leb128_loop N res sh r = read_leb128_loop N ?res ?sh ?r"
      using loop_continue [OF rem "1.prems"(1,2) signed_byte(1) N room(1), of res]
      unfolding signed_byte(3) .
    have sh': "unat ?sh = s + 7"
      using "1.prems"(1,2) by (rule shift_step)
    have s7: "s + 7 < 64"
      using room(1) N by linarith
    have more: "\<not> ((v div 128 = 0 \<and> v mod 128 < 64) \<or> (v div 128 = - 1 \<and> 64 \<le> v mod 128))"
      using False signed_done_iff [of v] by blast
    have "remaining ?r = encode_signed (v div 128) @ rest"
      by simp
    from "1.IH" [OF refl refl more sh' s7 room(2,3) this, of ?res]
    obtain sh'' lb k where k: "1 \<le> k" and u: "unat sh'' = s + 7 + 7 * k"
      and lo: "- (2 ^ (7 * k - 1)) \<le> v div 128" and hi: "v div 128 < 2 ^ (7 * k - 1)"
      and sg: "bit lb 6 \<longleftrightarrow> v div 128 < 0"
      and run: "read_leb128_loop N ?res ?sh ?r =
         (Inr \<lparr>result = ?res OR push_bit (s + 7) (take_bit (7 * k) (word_of_int (v div 128))),
               shift = sh'', last_byte = lb\<rparr>, ?r\<lparr>remaining := rest\<rparr>)"
      by blast
    have "?res OR push_bit (s + 7) (take_bit (7 * k) (word_of_int (v div 128))) =
        res OR push_bit s (take_bit 7 ?x OR push_bit 7 (take_bit (7 * k) (word_of_int (v div 128))))"
      by (simp add: push_bit_or push_bit_push_bit or.assoc add.commute)
    also have "\<dots> = res OR push_bit s (take_bit (7 + 7 * k) ?x)"
      by (simp only: join_groups)
    also have "7 + 7 * k = 7 * (k + 1)"
      by simp
    finally have res: "?res OR push_bit (s + 7) (take_bit (7 * k) (word_of_int (v div 128))) =
        res OR push_bit s (take_bit (7 * (k + 1)) ?x)" .
    have 1: "1 \<le> k + 1"
      by simp
    have 2: "unat sh'' = s + 7 * (k + 1)"
      using u by simp
    note 3 = widen_signed_bounds [OF k lo hi]
    have 4: "bit lb 6 \<longleftrightarrow> v < 0"
      unfolding sg by (simp add: pos_imp_zdiv_neg_iff)
    have 5: "read_leb128_loop N res sh r =
         (Inr \<lparr>result = res OR push_bit s (take_bit (7 * (k + 1)) ?x),
               shift = sh'', last_byte = lb\<rparr>, r\<lparr>remaining := rest\<rparr>)"
      unfolding step run res by simp
    from 1 2 3 4 5 show ?thesis
      by blast
  qed
qed

lemma sign_extend_back:
  fixes v :: int
  assumes "1 \<le> m" "- (2 ^ (m - 1)) \<le> v" "v < 2 ^ (m - 1)"
  shows "v < 0 \<Longrightarrow> take_bit m (word_of_int v :: u64) OR NOT (mask m) = word_of_int v"
    and "0 \<le> v \<Longrightarrow> take_bit m (word_of_int v :: u64) = word_of_int v"
proof -
  assume neg: "v < 0"
  have "bit v n" if "m \<le> n" for n
    using assms(2) neg by (rule high_bits_set) (use that assms(1) in simp)
  then show "take_bit m (word_of_int v :: u64) OR NOT (mask m) = word_of_int v"
    by (intro bit_word_eqI) (auto simp: bit_simps not_less)
next
  assume pos: "0 \<le> v"
  have "n < m" if "bit v n" for n
  proof (rule ccontr)
    assume "\<not> n < m"
    then have "m - 1 \<le> n"
      by simp
    with pos assms(3) have "\<not> bit v n"
      by (rule high_bits_clear)
    with that show False by simp
  qed
  then show "take_bit m (word_of_int v :: u64) = word_of_int v"
    by (intro bit_word_eqI) (auto simp: bit_simps)
qed

lemma signed_round_trip:
  assumes N: "1 \<le> N" "N \<le> 64"
    and lo: "- (2 ^ (nat N - 1)) \<le> w" and hi: "w < 2 ^ (nat N - 1)"
    and rem: "remaining r = encode_signed w @ rest"
  shows "read_leb128_signed N r = (Inr (word_of_int w), r\<lparr>remaining := rest\<rparr>)"
proof -
  let ?x = "word_of_int w :: u64"
  have "unat (0 :: u64) = 0" "(0::nat) < 64"
    "- (2 ^ (nat N - 0 - 1)) \<le> w" "w < 2 ^ (nat N - 0 - 1)"
    using lo hi by simp_all
  from loop_encode_signed [OF N this rem, of 0]
  obtain sh' lb k where k: "1 \<le> k" and u: "unat sh' = 7 * k"
    and b: "- (2 ^ (7 * k - 1)) \<le> w" "w < 2 ^ (7 * k - 1)"
    and sg: "bit lb 6 \<longleftrightarrow> w < 0"
    and run: "read_leb128_internal N r =
      (Inr \<lparr>result = take_bit (7 * k) ?x, shift = sh', last_byte = lb\<rparr>, r\<lparr>remaining := rest\<rparr>)"
    unfolding read_leb128_internal_def by auto
  have k7: "1 \<le> 7 * k"
    using k by simp
  have lt: "sh' < 64 \<longleftrightarrow> 7 * k < 64"
    unfolding word_less_nat_alt u by simp
  have "(if 7 * k < 64 \<and> w < 0 then take_bit (7 * k) ?x OR NOT (mask (7 * k))
         else take_bit (7 * k) ?x) = ?x"
  proof (cases "7 * k < 64")
    case True
    then show ?thesis
      using sign_extend_back [OF k7 b] by (cases "w < 0") simp_all
  next
    case False
    then have "take_bit (7 * k) ?x = ?x"
      by (intro take_bit_word_eq_self) simp
    with False show ?thesis
      by simp
  qed
  then show ?thesis
    unfolding read_leb128_signed_def run
    by (auto simp add: sign_test ones_from lt sg u split: if_splits)
qed

lemma sint_in_range:
  assumes "N \<le> 64" "- (2 ^ (nat N - 1)) \<le> w" "w < 2 ^ (nat N - 1)"
  shows "sint (word_of_int w :: i64) = w"
proof -
  have "(2::int) ^ (nat N - 1) \<le> 2 ^ 63"
    using assms(1) by (intro power_increasing) simp_all
  then have "- (2 ^ 63) \<le> w" "w < 2 ^ 63"
    using assms(2,3) by linarith+
  then show ?thesis
    by (simp add: sint_sbintrunc' signed_take_bit_int_eq_self)
qed

text \<open>
  C2. Fix a width \<open>N\<close> between 1 and 64. For every unsigned \<open>v\<close> below \<open>2 ^ N\<close>, the
  unsigned decode of the encoding of \<open>v\<close>, whatever bytes follow it, succeeds, returns
  exactly \<open>v\<close> and leaves the bytes that follow unread. For every signed \<open>w\<close> with
  \<open>- 2 ^ (N - 1) \<le> w < 2 ^ (N - 1)\<close>, the signed decode of the signed encoding of \<open>w\<close>
  succeeds and returns the 64-bit two's-complement pattern of \<open>w\<close>, whose signed reading
  is \<open>w\<close>.
\<close>

theorem leb128_round_trip:
  assumes "1 \<le> N" "N \<le> 64"
  shows "(v < 2 ^ nat N \<and> remaining r = encode_unsigned v @ rest \<longrightarrow>
            read_leb128_unsigned N r = (Inr (word_of_nat v), r\<lparr>remaining := rest\<rparr>) \<and>
            unat (word_of_nat v :: u64) = v) \<and>
         (- (2 ^ (nat N - 1)) \<le> w \<and> w < 2 ^ (nat N - 1) \<and>
          remaining r' = encode_signed w @ rest' \<longrightarrow>
            read_leb128_signed N r' = (Inr (word_of_int w), r'\<lparr>remaining := rest'\<rparr>) \<and>
            sint (word_of_int w :: i64) = w)"
  using unsigned_round_trip [OF assms, of v r rest]
    signed_round_trip [OF assms, of w r' rest'] sint_in_range [OF assms(2), of w]
  by blast

theorem leb128_round_trip_witness:
  "encode_unsigned 624485 = [0xE5, 0x8E, 0x26] \<and>
   read_leb128_unsigned 32 \<lparr>remaining = [0xE5, 0x8E, 0x26, 0x0B]\<rparr> =
     (Inr 624485, \<lparr>remaining = [0x0B]\<rparr>) \<and>
   unat (624485 :: u64) = 624485 \<and>
   encode_signed (- 123456) = [0xC0, 0xBB, 0x78] \<and>
   read_leb128_signed 32 \<lparr>remaining = [0xC0, 0xBB, 0x78, 0x0B]\<rparr> =
     (Inr (- 123456), \<lparr>remaining = [0x0B]\<rparr>) \<and>
   sint (- 123456 :: i64) = - 123456"
proof -
  have N: "(1::int) \<le> 32" "(32::int) \<le> 64"
    by simp_all
  have eu: "encode_unsigned 624485 = [0xE5, 0x8E, 0x26]"
    by (simp add: encode_unsigned.simps)
  have es: "encode_signed (- 123456) = [0xC0, 0xBB, 0x78]"
    by (simp add: encode_signed_unfold)
  have pu: "(624485::nat) < 2 ^ nat 32 \<and>
      remaining \<lparr>remaining = [0xE5, 0x8E, 0x26, 0x0B]\<rparr> = encode_unsigned 624485 @ [0x0B]"
    unfolding eu by simp
  have ps: "- (2 ^ (nat 32 - 1)) \<le> (- 123456 :: int) \<and> (- 123456 :: int) < 2 ^ (nat 32 - 1) \<and>
      remaining \<lparr>remaining = [0xC0, 0xBB, 0x78, 0x0B]\<rparr> = encode_signed (- 123456) @ [0x0B]"
    unfolding es by simp
  note T = leb128_round_trip [OF N, of 624485 "\<lparr>remaining = [0xE5, 0x8E, 0x26, 0x0B]\<rparr>" "[0x0B]"
      "- 123456" "\<lparr>remaining = [0xC0, 0xBB, 0x78, 0x0B]\<rparr>" "[0x0B]"]
  from T pu have "read_leb128_unsigned 32 \<lparr>remaining = [0xE5, 0x8E, 0x26, 0x0B]\<rparr> =
      (Inr (word_of_nat 624485), \<lparr>remaining = [0xE5, 0x8E, 0x26, 0x0B]\<rparr>\<lparr>remaining := [0x0B]\<rparr>) \<and>
      unat (word_of_nat 624485 :: u64) = 624485"
    by blast
  then have 1: "read_leb128_unsigned 32 \<lparr>remaining = [0xE5, 0x8E, 0x26, 0x0B]\<rparr> =
     (Inr 624485, \<lparr>remaining = [0x0B]\<rparr>)" and 2: "unat (624485 :: u64) = 624485"
    by simp_all
  from T ps have "read_leb128_signed 32 \<lparr>remaining = [0xC0, 0xBB, 0x78, 0x0B]\<rparr> =
      (Inr (word_of_int (- 123456)), \<lparr>remaining = [0xC0, 0xBB, 0x78, 0x0B]\<rparr>\<lparr>remaining := [0x0B]\<rparr>) \<and>
      sint (word_of_int (- 123456) :: i64) = - 123456"
    by blast
  then have 3: "read_leb128_signed 32 \<lparr>remaining = [0xC0, 0xBB, 0x78, 0x0B]\<rparr> =
     (Inr (- 123456), \<lparr>remaining = [0x0B]\<rparr>)" and 4: "sint (- 123456 :: i64) = - 123456"
    by simp_all
  from eu 1 2 es 3 4 show ?thesis
    by blast
qed

subsection \<open>Fixed-width reads\<close>

declare consume_n_loop.simps [simp del]

lemma consume_n_loop_short:
  "length (remaining r) < N - i \<Longrightarrow>
   consume_n_loop N i buf r = (Inl UnexpectedEndOfModule, r\<lparr>remaining := []\<rparr>)"
proof (induction N i buf r rule: consume_n_loop.induct)
  case (1 N i buf r)
  then have i: "i < N" by simp
  show ?case
  proof (cases "remaining r")
    case Nil
    then have "r\<lparr>remaining := []\<rparr> = r" by simp
    with Nil i show ?thesis
      by (subst consume_n_loop.simps) (simp add: consume_Nil)
  next
    case (Cons b bs)
    have c: "consume r = (Inr b, r\<lparr>remaining := bs\<rparr>)"
      using Cons by (rule consume_Cons)
    have "length (remaining (r\<lparr>remaining := bs\<rparr>)) < N - (i + 1)"
      using "1.prems" Cons by simp
    from "1.IH" [OF i c [symmetric] refl this] i c show ?thesis
      by (subst consume_n_loop.simps) simp
  qed
qed

text \<open>
  C5, as the code has it. With fewer than \<open>N\<close> bytes remaining, \<open>consume_n\<close> fails with
  the unexpected-end error, but only after it has consumed every byte that was there: the
  cursor is left at the end of the input, not where it was.
\<close>

theorem consume_n_short:
  "length (remaining r) < N \<Longrightarrow>
   consume_n N r = (Inl UnexpectedEndOfModule, r\<lparr>remaining := []\<rparr>)"
  unfolding consume_n_def by (rule consume_n_loop_short) simp

theorem consume_n_short_witness:
  "length (remaining \<lparr>remaining = [0x2A]\<rparr>) < 4 \<and>
   consume_n 4 \<lparr>remaining = [0x2A]\<rparr> = (Inl UnexpectedEndOfModule, \<lparr>remaining = []\<rparr>)"
  using consume_n_short [of "\<lparr>remaining = [0x2A]\<rparr>" 4] by simp

text \<open>
  With one byte remaining and four requested, the failed call has moved the cursor past
  that byte.
\<close>

theorem consume_n_not_atomic:
  "fst (consume_n 4 \<lparr>remaining = [0x2A]\<rparr>) = Inl UnexpectedEndOfModule \<and>
   snd (consume_n 4 \<lparr>remaining = [0x2A]\<rparr>) \<noteq> \<lparr>remaining = [0x2A]\<rparr>"
  by (simp add: consume_n_def consume_n_loop.simps [of 4] consume_def span_index_def subspan_def)

subsection \<open>Value types\<close>

lemma read_byte_Cons:
  "remaining r = b # bs \<Longrightarrow> read_byte r = (Inr b, r\<lparr>remaining := bs\<rparr>)"
  by (simp add: read_byte_def consume_Cons)

text \<open>
  C6. With at least one byte remaining, \<open>read_val_ty\<close> consumes exactly that byte and maps
  0x7F, 0x7E, 0x7D, 0x7C, 0x7B, 0x70 and 0x6F to \<open>i32\<close>, \<open>i64\<close>, \<open>f32\<close>, \<open>f64\<close>, \<open>v128\<close>,
  \<open>func_ref\<close> and \<open>extern_ref\<close>; every other byte fails with the unknown-type error that
  carries the byte.
\<close>

theorem read_val_ty_table:
  assumes "remaining r = b # bs"
  shows "read_val_ty r =
     (if b = 0x7F then Inr i32
      else if b = 0x7E then Inr i64
      else if b = 0x7D then Inr f32
      else if b = 0x7C then Inr f64
      else if b = 0x7B then Inr v128
      else if b = 0x70 then Inr func_ref
      else if b = 0x6F then Inr extern_ref
      else Inl (UnknownTypeIdentifier b),
      r\<lparr>remaining := bs\<rparr>)"
  by (simp add: read_val_ty_def read_byte_Cons [OF assms])

theorem read_val_ty_table_witness:
  "read_val_ty \<lparr>remaining = [0x7F, 0x01]\<rparr> = (Inr i32, \<lparr>remaining = [0x01]\<rparr>) \<and>
   read_val_ty \<lparr>remaining = [0x7E, 0x01]\<rparr> = (Inr i64, \<lparr>remaining = [0x01]\<rparr>) \<and>
   read_val_ty \<lparr>remaining = [0x7D, 0x01]\<rparr> = (Inr f32, \<lparr>remaining = [0x01]\<rparr>) \<and>
   read_val_ty \<lparr>remaining = [0x7C, 0x01]\<rparr> = (Inr f64, \<lparr>remaining = [0x01]\<rparr>) \<and>
   read_val_ty \<lparr>remaining = [0x7B, 0x01]\<rparr> = (Inr v128, \<lparr>remaining = [0x01]\<rparr>) \<and>
   read_val_ty \<lparr>remaining = [0x70, 0x01]\<rparr> = (Inr func_ref, \<lparr>remaining = [0x01]\<rparr>) \<and>
   read_val_ty \<lparr>remaining = [0x6F, 0x01]\<rparr> = (Inr extern_ref, \<lparr>remaining = [0x01]\<rparr>) \<and>
   read_val_ty \<lparr>remaining = [0x60, 0x01]\<rparr> =
     (Inl (UnknownTypeIdentifier 0x60), \<lparr>remaining = [0x01]\<rparr>)"
  using read_val_ty_table [of "\<lparr>remaining = [0x7F, 0x01]\<rparr>" "0x7F" "[0x01]"]
    read_val_ty_table [of "\<lparr>remaining = [0x7E, 0x01]\<rparr>" "0x7E" "[0x01]"]
    read_val_ty_table [of "\<lparr>remaining = [0x7D, 0x01]\<rparr>" "0x7D" "[0x01]"]
    read_val_ty_table [of "\<lparr>remaining = [0x7C, 0x01]\<rparr>" "0x7C" "[0x01]"]
    read_val_ty_table [of "\<lparr>remaining = [0x7B, 0x01]\<rparr>" "0x7B" "[0x01]"]
    read_val_ty_table [of "\<lparr>remaining = [0x70, 0x01]\<rparr>" "0x70" "[0x01]"]
    read_val_ty_table [of "\<lparr>remaining = [0x6F, 0x01]\<rparr>" "0x6F" "[0x01]"]
    read_val_ty_table [of "\<lparr>remaining = [0x60, 0x01]\<rparr>" "0x60" "[0x01]"]
  by simp

subsection \<open>Function types\<close>

lemma expect_Cons:
  "remaining r = b # bs \<Longrightarrow>
   expect val r = (if b \<noteq> val then Inl (UnexpectedByte val b) else Inr (), r\<lparr>remaining := bs\<rparr>)"
  by (simp add: expect_def consume_Cons)

lemma read_function_ty_marker:
  "remaining r = b # bs \<Longrightarrow> b \<noteq> 0x60 \<Longrightarrow>
   read_function_ty r = (Inl (UnexpectedByte 0x60 b), r\<lparr>remaining := bs\<rparr>)"
  by (simp add: read_function_ty_def expect_Cons)

lemma read_function_ty_never_returns:
  "\<exists>e. fst (read_function_ty r) = Inl e"
  by (auto simp: read_function_ty_def split: prod.splits sum.splits)

text \<open>
  C7. On the bytes of the function type \<open>[i32, i64] \<rightarrow> [f32]\<close> the source consumes the marker
  0x60 and nothing else, and produces no \<open>FunctionType\<close>: the five bytes of the two
  lists are still unread when control runs off the end of the function.
\<close>

theorem read_function_ty_unfinished:
  "read_function_ty \<lparr>remaining = [0x60, 0x02, 0x7F, 0x7E, 0x01, 0x7D]\<rparr> =
     (Inl MissingReturn, \<lparr>remaining = [0x02, 0x7F, 0x7E, 0x01, 0x7D]\<rparr>)"
  by (simp add: read_function_ty_def expect_Cons)

subsection \<open>Limits\<close>

text \<open>
  C8, as the code has it. An unbounded limit stores the all-bits-set sentinel and reports
  no maximum. \<open>bounded\<close> accepts every 32-bit maximum; it reports the maximum back for
  every value but the sentinel, and with the sentinel as the explicit maximum it builds
  the very same limit as \<open>unbounded\<close>.
\<close>

theorem limit_sentinel:
  "max_of (unbounded mn) = None \<and>
   (mx \<noteq> 0xFFFFFFFF \<longrightarrow> max_of (bounded mn mx) = Some mx) \<and>
   bounded mn 0xFFFFFFFF = unbounded mn \<and>
   min_of (bounded mn mx) = mn"
  by (simp add: max_of_def min_of_def bounded_def unbounded_def)

theorem limit_sentinel_witness:
  "max_of (unbounded 1) = None \<and> (65536 :: u32) \<noteq> 0xFFFFFFFF \<and>
   max_of (bounded 1 65536) = Some 65536 \<and>
   bounded 1 0xFFFFFFFF = unbounded 1 \<and> min_of (bounded 1 65536) = 1"
  using limit_sentinel [of 1 65536] by simp

text \<open>An explicit maximum of 0xFFFFFFFF is accepted and read back as no maximum.\<close>

theorem limit_sentinel_confused:
  "max_of (bounded 0 0xFFFFFFFF) = None \<and> max_of (bounded 0 0xFFFFFFFF) \<noteq> Some 0xFFFFFFFF"
  by (simp add: max_of_def bounded_def)

subsection \<open>The multi-sequence store\<close>

lemma run_pushes:
  "run_calls (map Push xs @ cs) b = run_calls cs (b\<lparr>underlying := underlying b @ xs\<rparr>)"
  by (induction xs arbitrary: b) (simp_all add: push_def)

lemma run_segment:
  assumes "current_index b < length (MultiArrayBuilder.indices b)"
  shows "run_calls ((map Push seg @ [EndSubVec]) @ cs) b =
     run_calls cs
       (b\<lparr>underlying := underlying b @ seg,
          indices := (MultiArrayBuilder.indices b)
            [current_index b := word_of_nat (length (underlying b) + length seg)],
          current_index := current_index b + 1\<rparr>)"
  using assms by (simp add: run_pushes end_sub_vec_def)

lemma run_segments:
  "current_index b + length segs \<le> length (MultiArrayBuilder.indices b) \<Longrightarrow>
   \<exists>b'. run_calls (concat (map (\<lambda>seg. map Push seg @ [EndSubVec]) segs) @ cs) b = run_calls cs b' \<and>
     underlying b' = underlying b @ concat segs \<and>
     current_index b' = current_index b + length segs \<and>
     length (MultiArrayBuilder.indices b') = length (MultiArrayBuilder.indices b) \<and>
     (\<forall>t < length segs. MultiArrayBuilder.indices b' ! (current_index b + t) =
        word_of_nat (length (underlying b) + length (concat (take (Suc t) segs)))) \<and>
     (\<forall>t < current_index b. MultiArrayBuilder.indices b' ! t = MultiArrayBuilder.indices b ! t)"
proof (induction segs arbitrary: b)
  case Nil
  show ?case by (intro exI [of _ b]) simp
next
  case (Cons seg segs)
  let ?b = "b\<lparr>underlying := underlying b @ seg,
          indices := (MultiArrayBuilder.indices b)
            [current_index b := word_of_nat (length (underlying b) + length seg)],
          current_index := current_index b + 1\<rparr>"
  have lt: "current_index b < length (MultiArrayBuilder.indices b)"
    using Cons.prems by simp
  have step: "run_calls (concat (map (\<lambda>seg. map Push seg @ [EndSubVec]) (seg # segs)) @ cs) b =
      run_calls (concat (map (\<lambda>seg. map Push seg @ [EndSubVec]) segs) @ cs) ?b"
    using run_segment [OF lt, of seg] by simp
  have "current_index ?b + length segs \<le> length (MultiArrayBuilder.indices ?b)"
    using Cons.prems by simp
  from Cons.IH [OF this] obtain b' where
    run: "run_calls (concat (map (\<lambda>seg. map Push seg @ [EndSubVec]) segs) @ cs) ?b = run_calls cs b'"
    and u: "underlying b' = underlying ?b @ concat segs"
    and ci: "current_index b' = current_index ?b + length segs"
    and len: "length (MultiArrayBuilder.indices b') = length (MultiArrayBuilder.indices ?b)"
    and new: "\<And>t. t < length segs \<Longrightarrow> MultiArrayBuilder.indices b' ! (current_index ?b + t) =
        word_of_nat (length (underlying ?b) + length (concat (take (Suc t) segs)))"
    and old: "\<And>t. t < current_index ?b \<Longrightarrow>
        MultiArrayBuilder.indices b' ! t = MultiArrayBuilder.indices ?b ! t"
    by blast
  have here: "MultiArrayBuilder.indices b' ! (current_index b + t) =
      word_of_nat (length (underlying b) + length (concat (take (Suc t) (seg # segs))))"
    if "t < length (seg # segs)" for t
  proof (cases t)
    case 0
    then show ?thesis
      using old [of "current_index b"] lt by simp
  next
    case (Suc t')
    then show ?thesis
      using new [of t'] that by (simp add: add.assoc)
  qed
  have before: "MultiArrayBuilder.indices b' ! t = MultiArrayBuilder.indices b ! t"
    if "t < current_index b" for t
    using old [of t] that by simp
  show ?case
    unfolding step run using u ci len here before
    by (intro exI [of _ b']) simp
qed

lemma concat_take_le:
  "t \<le> t' \<Longrightarrow> length (concat (take t segs)) \<le> length (concat (take t' segs))"
proof -
  assume "t \<le> t'"
  then have "take t' segs = take t segs @ take (t' - t) (drop t segs)"
    by (metis le_add_diff_inverse take_add)
  then show ?thesis
    by simp
qed

lemma concat_take_total:
  "length (concat (take t segs)) \<le> length (concat segs)"
proof -
  have "concat segs = concat (take t segs) @ concat (drop t segs)"
    by (metis append_take_drop_id concat_append)
  then show ?thesis
    by (metis length_append le_add1)
qed

lemma concat_take_Suc:
  "i < length segs \<Longrightarrow>
   length (concat (take (Suc i) segs)) = length (concat (take i segs)) + length (segs ! i)"
  by (simp add: take_Suc_conv_app_nth)

lemma segment_slice:
  assumes "i < length segs"
  shows "take (length (segs ! i)) (drop (length (concat (take i segs))) (concat segs @ rest)) =
         segs ! i"
proof -
  have "segs = take i segs @ segs ! i # drop (Suc i) segs"
    using assms by (rule id_take_nth_drop)
  then have "concat segs = concat (take i segs) @ segs ! i @ concat (drop (Suc i) segs)"
    by (metis concat.simps(2) concat_append)
  then show ?thesis
    by simp
qed

lemma unat_offset:
  "n < 2 ^ 32 \<Longrightarrow> unat (word_of_nat n :: u32) = n"
  by (simp add: unat_of_nat)

lemma built_segments:
  assumes k: "length segs \<le> N"
    and cs: "cs = concat (map (\<lambda>seg. map Push seg @ [EndSubVec]) segs) @ map Push rest"
  obtains b where "run_calls cs (new_builder N) = Inr b"
    "array (build_repaired b) = concat segs @ rest"
    "length (SmallMultiArray.indices (build_repaired b)) = N"
    "\<And>t. t < length segs \<Longrightarrow>
       SmallMultiArray.indices (build_repaired b) ! t =
       word_of_nat (length (concat (take (Suc t) segs)))"
proof -
  let ?b = "new_builder N :: 'a MultiArrayBuilder"
  have "current_index ?b + length segs \<le> length (MultiArrayBuilder.indices ?b)"
    using k by (simp add: new_builder_def)
  from run_segments [OF this, of "map Push rest @ []"] obtain b' where
    run: "run_calls cs ?b = run_calls (map Push rest @ []) b'"
    and u: "underlying b' = concat segs"
    and len: "length (MultiArrayBuilder.indices b') = N"
    and new: "\<And>t. t < length segs \<Longrightarrow> MultiArrayBuilder.indices b' ! t =
        word_of_nat (length (concat (take (Suc t) segs)))"
    unfolding cs by (auto simp: new_builder_def)
  let ?a = "build_repaired (b'\<lparr>underlying := underlying b' @ rest\<rparr>)"
  have 1: "run_calls cs ?b = Inr (b'\<lparr>underlying := underlying b' @ rest\<rparr>)"
    unfolding run run_pushes by simp
  have 2: "array ?a = concat segs @ rest"
    using u by (simp add: build_repaired_def)
  have 3: "length (SmallMultiArray.indices ?a) = N"
    using len by (simp add: build_repaired_def)
  have 4: "SmallMultiArray.indices ?a ! t = word_of_nat (length (concat (take (Suc t) segs)))"
    if "t < length segs" for t
    using new [OF that] by (simp add: build_repaired_def)
  from 1 2 3 4 show thesis
    by (rule that)
qed

text \<open>
  What the builder records is right below \<open>2 ^ 32\<close> elements. Take any arity \<open>N\<close>, any
  \<open>k \<le> N\<close> runs of pushes each closed by \<open>end_sub_vec\<close>, and any further pushes after the
  last close, with fewer than \<open>2 ^ 32\<close> elements pushed before the last close. With the
  name in \<open>build\<close> repaired, \<open>sub_vec i\<close> is exactly the \<open>i\<close>-th run for every \<open>i < k\<close>, the
  first \<open>k\<close> end offsets are non-decreasing and run \<open>i\<close> is the slice of the backing
  sequence from offset \<open>i - 1\<close> (0 for the first run) up to offset \<open>i\<close>.
\<close>

lemma repaired_sub_vec_segments:
  assumes "length segs \<le> N" and "length (concat segs) < 2 ^ 32" and "i < length segs"
    and "cs = concat (map (\<lambda>seg. map Push seg @ [EndSubVec]) segs) @ map Push rest"
  shows "\<exists>b. run_calls cs (new_builder N) = Inr b \<and>
           (let a = build_repaired b;
                offset = (\<lambda>j. unat (SmallMultiArray.indices a ! j));
                begin = (if i = 0 then 0 else offset (i - 1))
            in sub_vec a i = Inr (segs ! i) \<and>
               sorted (map unat (take (length segs) (SmallMultiArray.indices a))) \<and>
               begin \<le> offset i \<and> offset i \<le> length (array a) \<and>
               segs ! i = take (offset i - begin) (drop begin (array a)))"
proof -
  let ?L = "\<lambda>t. length (concat (take t segs))"
  from built_segments [OF assms(1,4)] obtain b where
    run: "run_calls cs (new_builder N) = Inr b"
    and arr: "array (build_repaired b) = concat segs @ rest"
    and len: "length (SmallMultiArray.indices (build_repaired b)) = N"
    and ix: "\<And>t. t < length segs \<Longrightarrow>
      SmallMultiArray.indices (build_repaired b) ! t = word_of_nat (?L (Suc t))"
    by blast
  define a where "a = build_repaired b"
  note arr = arr [folded a_def] and len = len [folded a_def] and ix = ix [folded a_def]
  have small: "?L t < 2 ^ 32" for t
    using concat_take_total [of t segs] assms(2) by simp
  have off: "unat (SmallMultiArray.indices a ! t) = ?L (Suc t)" if "t < length segs" for t
    unfolding ix [OF that] using small by (rule unat_offset)
  have Li: "?L (Suc i) = ?L i + length (segs ! i)"
    using assms(3) by (rule concat_take_Suc)
  define bg :: u32 where "bg = (if i = 0 then 0 else SmallMultiArray.indices a ! (i - 1))"
  have ub: "unat bg = ?L i"
  proof (cases i)
    case 0
    then show ?thesis by (simp add: bg_def)
  next
    case (Suc j)
    then show ?thesis
      using off [of j] assms(3) by (simp add: bg_def)
  qed
  have "bg = word_of_nat (unat bg)"
    by simp
  then have "bg = word_of_nat (?L i)"
    unfolding ub .
  then have "SmallMultiArray.indices a ! i - bg = word_of_nat (length (segs ! i))"
    unfolding ix [OF assms(3)] Li by simp
  moreover have "length (segs ! i) < 2 ^ 32"
    using small [of "Suc i"] Li by simp
  ultimately have ul: "unat (SmallMultiArray.indices a ! i - bg) = length (segs ! i)"
    by (simp add: unat_offset)
  have inside: "?L i + length (segs ! i) \<le> length (array a)"
    using concat_take_total [of "Suc i" segs] Li arr by simp
  have "i < length (SmallMultiArray.indices a)"
    using assms(1,3) len by simp
  then have sv: "sub_vec a i = Inr (segs ! i)"
    unfolding sub_vec_def bg_def [symmetric] Let_def ub ul
    using inside segment_slice [OF assms(3), of rest] arr by simp
  have srt: "sorted (map unat (take (length segs) (SmallMultiArray.indices a)))"
  proof (rule sorted_iff_nth_mono [THEN iffD2], intro allI impI)
    fix t t'
    assume le: "t \<le> t'" and "t' < length (map unat (take (length segs) (SmallMultiArray.indices a)))"
    then have t': "t' < length segs" "t' < N"
      using len by simp_all
    then have t: "t < length segs" "t < N"
      using le by simp_all
    have "?L (Suc t) \<le> ?L (Suc t')"
      using le by (intro concat_take_le) simp
    then show "map unat (take (length segs) (SmallMultiArray.indices a)) ! t \<le>
        map unat (take (length segs) (SmallMultiArray.indices a)) ! t'"
      using t t' len off by simp
  qed
  have spans: "unat bg \<le> unat (SmallMultiArray.indices a ! i) \<and>
      unat (SmallMultiArray.indices a ! i) \<le> length (array a) \<and>
      segs ! i = take (unat (SmallMultiArray.indices a ! i) - unat bg) (drop (unat bg) (array a))"
    unfolding ub off [OF assms(3)] Li
    using inside segment_slice [OF assms(3), of rest] arr by simp
  have b': "unat bg = (if i = 0 then 0 else unat (SmallMultiArray.indices a ! (i - 1)))"
    by (simp add: bg_def)
  have "let offset = (\<lambda>j. unat (SmallMultiArray.indices a ! j));
            begin = (if i = 0 then 0 else offset (i - 1))
        in sub_vec a i = Inr (segs ! i) \<and>
           sorted (map unat (take (length segs) (SmallMultiArray.indices a))) \<and>
           begin \<le> offset i \<and> offset i \<le> length (array a) \<and>
           segs ! i = take (offset i - begin) (drop begin (array a))"
    using sv srt spans unfolding b' by (simp add: Let_def)
  then show ?thesis
    using run unfolding a_def by (simp add: Let_def)
qed

text \<open>
  The end offsets are 32-bit. With \<open>2 ^ 32\<close> elements pushed and then closed, the stored
  offset wraps to 0: even with the name repaired the first sub-array comes back empty,
  and the last offset is no longer the size of the backing sequence, which the comment
  on \<^verbatim>\<open>indices_\<close> in the header says it is.
\<close>

lemma repaired_offset_wraps:
  "\<exists>b. run_calls (map Push (replicate (2 ^ 32) i32) @ [EndSubVec]) (new_builder 1) = Inr b \<and>
     sub_vec (build_repaired b) 0 = Inr [] \<and>
     SmallMultiArray.indices (build_repaired b) ! 0 = 0 \<and>
     length (array (build_repaired b)) = 2 ^ 32"
proof -
  have wrap: "(word_of_nat (2 ^ 32) :: u32) = 0"
    by simp
  have run: "run_calls (map Push (replicate (2 ^ 32) i32) @ [EndSubVec]) (new_builder 1) =
      run_calls [EndSubVec]
        ((new_builder 1)\<lparr>underlying := underlying (new_builder 1) @ replicate (2 ^ 32) i32\<rparr>)"
    by (rule run_pushes)
  show ?thesis
    unfolding run using wrap
    by (simp add: new_builder_def end_sub_vec_def build_repaired_def sub_vec_def)
qed

text \<open>
  C9. On the example of the header itself (the sub-arrays \<open>[1, 2, 3]\<close>, \<open>[4, 5]\<close> and
  \<open>[6, 7, 8, 9, 10]\<close>, arity 3) the builder accepts every call, but \<open>build\<close> yields no
  store, so asking for sub-array 1 does not give \<open>[4, 5]\<close>.
\<close>

theorem sub_vec_after_no_store:
  "run_calls
     [Push 1, Push 2, Push 3, EndSubVec, Push 4, Push 5, EndSubVec,
      Push 6, Push 7, Push 8, Push 9, Push 10, EndSubVec] (new_builder 3) =
     Inr \<lparr>underlying = [1, 2, 3, 4, 5, 6, 7, 8, 9, 10 :: nat], indices = [3, 5, 10],
          current_index = 3\<rparr> \<and>
   sub_vec_after 3
     [Push 1, Push 2, Push 3, EndSubVec, Push 4, Push 5, EndSubVec,
      Push 6, Push 7, Push 8, Push 9, Push 10, EndSubVec] 1 =
     (Inl UndeclaredName :: error + nat list)"
proof -
  have run: "run_calls
     [Push 1, Push 2, Push 3, EndSubVec, Push 4, Push 5, EndSubVec,
      Push 6, Push 7, Push 8, Push 9, Push 10, EndSubVec] (new_builder 3) =
     Inr \<lparr>underlying = [1, 2, 3, 4, 5, 6, 7, 8, 9, 10 :: nat], indices = [3, 5, 10],
          current_index = 3\<rparr>"
    by (simp add: new_builder_def push_def end_sub_vec_def numeral_3_eq_3)
  then show ?thesis
    by (simp add: sub_vec_after_def build_after_def build_def)
qed

end
